theory Spec2Isabelle
  imports Main "HOL-Library.Sublist" "HOL-Library.Multiset"
begin

section \<open>The data model of \<open>aho_corasick_matcher.py\<close>\<close>

text \<open>
  Python nodes are objects compared by identity and linked by references.  The embedding
  keeps them in an object store, a list of nodes indexed by address: allocating
  \<open>AhoCorasickNode()\<close> appends a fresh node to the store and yields its address.  The
  root is the first object that \<open>AhoCorasick.__init__\<close> allocates, so its address
  is \<open>0\<close>.  A \<open>children\<close> dictionary is an association list in insertion order (the order
  in which \<open>values()\<close> and \<open>items()\<close> iterate), read with \<open>map_of\<close>.  Strings
  are lists of characters of the type \<open>char\<close>; nothing below depends on the alphabet.
\<close>

record node =
  children :: "(char \<times> nat) list"
  failure_link :: "nat option"
  "output" :: "nat list"
  is_end_of_pattern :: bool

record automaton =
  heap :: "node list"
  patterns :: "string list"

datatype error = AttributeError | IndexError

text \<open>
  A computation that may loop forever and may raise: \<open>None\<close> is divergence,
  \<open>Some (Inl e)\<close> is the exception \<open>e\<close>, \<open>Some (Inr v)\<close> is the returned value.
\<close>

type_synonym 'a result = "(error + 'a) option"

abbreviation root :: nat where
  "root \<equiv> 0"

definition new_node :: node where
  "new_node = \<lparr>children = [], failure_link = None, output = [], is_end_of_pattern = False\<rparr>"

definition new_automaton :: automaton where
  "new_automaton = \<lparr>heap = [new_node], patterns = []\<rparr>"

section \<open>\<open>AhoCorasick.add_pattern\<close>\<close>

text \<open>
  The loop \<open>for char in pattern\<close>: a missing child is allocated at the end of the store
  and entered in the dictionary of the current node, then the walk moves to the child.
\<close>

fun walk_insert :: "node list \<Rightarrow> nat \<Rightarrow> string \<Rightarrow> node list \<times> nat" where
  "walk_insert h current [] = (h, current)"
| "walk_insert h current (c # cs) =
     (case map_of (children (h ! current)) c of
        Some nxt \<Rightarrow> walk_insert h nxt cs
      | None \<Rightarrow>
          (let fresh = length h;
               h' = h[current := (h ! current)\<lparr>children := children (h ! current) @ [(c, fresh)]\<rparr>]
                    @ [new_node]
           in walk_insert h' fresh cs))"

definition add_pattern :: "automaton \<Rightarrow> string \<Rightarrow> automaton" where
  "add_pattern a pattern =
     (if pattern = [] then a
      else
        (let pattern_id = length (patterns a);
             ps = patterns a @ [pattern];
             (h, current) = walk_insert (heap a) root pattern;
             h' = h[current := (h ! current)\<lparr>is_end_of_pattern := True\<rparr>];
             h'' = h'[current := (h' ! current)\<lparr>output := output (h' ! current) @ [pattern_id]\<rparr>]
         in \<lparr>heap = h'', patterns = ps\<rparr>))"

definition add_patterns :: "automaton \<Rightarrow> string list \<Rightarrow> automaton" where
  "add_patterns a ps = foldl add_pattern a ps"

section \<open>\<open>AhoCorasick.build_failure_links\<close>\<close>

text \<open>
  The fallback loop of \<open>build_failure_links\<close>,
  \<open>while failure_node != self.root and char not in failure_node.children\<close>, on the store
  as it is when the loop starts (the loop reads the store and assigns only to its
  variable).  The loop variable holds whatever a \<open>failure_link\<close> field held; when that
  is \<open>None\<close>, the test \<open>None != self.root\<close> succeeds and reading \<open>None.children\<close> raises
  \<open>AttributeError\<close>.
\<close>

partial_function (option) fallback :: "node list \<Rightarrow> char \<Rightarrow> nat option \<Rightarrow> nat result" where
  "fallback h c current =
     (case current of
        None \<Rightarrow> Some (Inl AttributeError)
      | Some n \<Rightarrow>
          if n \<noteq> root \<and> map_of (children (h ! n)) c = None
          then fallback h c (failure_link (h ! n))
          else Some (Inr n))"

declare fallback.simps [code]

text \<open>The first loop: every child of the root gets the root as failure link and is queued.\<close>

fun init_links :: "node list \<Rightarrow> nat list \<Rightarrow> nat list \<Rightarrow> node list \<times> nat list" where
  "init_links h queue [] = (h, queue)"
| "init_links h queue (child # rest) =
     init_links (h[child := (h ! child)\<lparr>failure_link := Some root\<rparr>]) (queue @ [child]) rest"

text \<open>
  The body of \<open>for char, child_node in current_node.children.items()\<close> for one item, and
  the loop over the items.  \<open>failure_node.children.get(char, self.root)\<close> is the child on
  \<open>char\<close> when there is one and the root otherwise; the output of the new failure link
  is read after the link has been stored.
\<close>

definition link_child :: "node list \<Rightarrow> nat \<Rightarrow> char \<Rightarrow> nat \<Rightarrow> node list result" where
  "link_child h current_node c child_node =
     (case fallback h c (failure_link (h ! current_node)) of
        None \<Rightarrow> None
      | Some (Inl e) \<Rightarrow> Some (Inl e)
      | Some (Inr failure_node) \<Rightarrow>
          (let target = (case map_of (children (h ! failure_node)) c of
                           Some t \<Rightarrow> t | None \<Rightarrow> root);
               h' = h[child_node := (h ! child_node)\<lparr>failure_link := Some target\<rparr>];
               h'' = h'[child_node := (h' ! child_node)
                          \<lparr>output := output (h' ! child_node) @ output (h' ! target)\<rparr>]
           in Some (Inr h'')))"

fun link_children ::
  "node list \<Rightarrow> nat list \<Rightarrow> nat \<Rightarrow> (char \<times> nat) list \<Rightarrow> (node list \<times> nat list) result" where
  "link_children h queue current_node [] = Some (Inr (h, queue))"
| "link_children h queue current_node ((c, child_node) # items) =
     (case link_child h current_node c child_node of
        None \<Rightarrow> None
      | Some (Inl e) \<Rightarrow> Some (Inl e)
      | Some (Inr h') \<Rightarrow> link_children h' (queue @ [child_node]) current_node items)"

text \<open>The loop \<open>while queue\<close>: pop the head, link its children, continue.\<close>

partial_function (option) bfs_loop :: "node list \<Rightarrow> nat list \<Rightarrow> node list result" where
  "bfs_loop h queue =
     (case queue of
        [] \<Rightarrow> Some (Inr h)
      | current_node # rest \<Rightarrow>
          (case link_children h rest current_node (children (h ! current_node)) of
             None \<Rightarrow> None
           | Some (Inl e) \<Rightarrow> Some (Inl e)
           | Some (Inr (h', queue')) \<Rightarrow> bfs_loop h' queue'))"

declare bfs_loop.simps [code]

definition build_failure_links :: "automaton \<Rightarrow> automaton result" where
  "build_failure_links a =
     (let (h, queue) = init_links (heap a) [] (map snd (children (heap a ! root)))
      in case bfs_loop h queue of
           None \<Rightarrow> None
         | Some (Inl e) \<Rightarrow> Some (Inl e)
         | Some (Inr h') \<Rightarrow> Some (Inr (a\<lparr>heap := h'\<rparr>)))"

section \<open>\<open>AhoCorasick.search\<close>\<close>

text \<open>
  \<open>search\<close> is a method of the automaton, so the automaton is its state: every loop of
  the method takes the automaton and gives back the automaton that its statements leave,
  together with the values it computes, and each step goes on from the automaton that the
  step before it gave back.  A statement that assigned to a field of the automaton or of a
  node would show in the automaton given back.

  The fallback loop of \<open>search\<close>,
  \<open>while current != self.root and char not in current.children\<close>: as in
  \<open>build_failure_links\<close>, a \<open>failure_link\<close> that is \<open>None\<close> raises \<open>AttributeError\<close>.
\<close>

partial_function (option) search_fallback ::
  "automaton \<Rightarrow> char \<Rightarrow> nat option \<Rightarrow> (automaton \<times> nat) result" where
  "search_fallback a c current =
     (case current of
        None \<Rightarrow> Some (Inl AttributeError)
      | Some n \<Rightarrow>
          if n \<noteq> root \<and> map_of (children (heap a ! n)) c = None
          then search_fallback a c (failure_link (heap a ! n))
          else Some (Inr (a, n)))"

declare search_fallback.simps [code]

text \<open>
  The loop \<open>for pattern_id in current.output\<close>: \<open>self.patterns[pattern_id]\<close> raises
  \<open>IndexError\<close> for an identifier that is not an index of the pattern list (identifiers
  are never negative).  Start positions are Python integers.
\<close>

fun emit ::
  "automaton \<Rightarrow> nat \<Rightarrow> (int \<times> string) list \<Rightarrow> nat list
     \<Rightarrow> (automaton \<times> (int \<times> string) list) result" where
  "emit a i matches [] = Some (Inr (a, matches))"
| "emit a i matches (pattern_id # ids) =
     (if pattern_id < length (patterns a)
      then (let pattern = patterns a ! pattern_id;
                start_pos = int i - int (length pattern) + 1
            in emit a i (matches @ [(start_pos, pattern)]) ids)
      else Some (Inl IndexError))"

text \<open>The loop \<open>for i, char in enumerate(text)\<close>.\<close>

fun search_loop ::
  "automaton \<Rightarrow> nat \<Rightarrow> nat \<Rightarrow> (int \<times> string) list \<Rightarrow> string
     \<Rightarrow> (automaton \<times> (int \<times> string) list) result" where
  "search_loop a current i matches [] = Some (Inr (a, matches))"
| "search_loop a current i matches (c # cs) =
     (case search_fallback a c (Some current) of
        None \<Rightarrow> None
      | Some (Inl e) \<Rightarrow> Some (Inl e)
      | Some (Inr (a1, n)) \<Rightarrow>
          (let current' = (case map_of (children (heap a1 ! n)) c of
                             Some t \<Rightarrow> t | None \<Rightarrow> n)
           in case emit a1 i matches (output (heap a1 ! current')) of
                None \<Rightarrow> None
              | Some (Inl e) \<Rightarrow> Some (Inl e)
              | Some (Inr (a2, matches')) \<Rightarrow> search_loop a2 current' (Suc i) matches' cs))"

text \<open>
  \<open>search\<close>: the loop from the root with no matches; the result is the automaton after
  the call and the matches.
\<close>

definition search :: "automaton \<Rightarrow> string \<Rightarrow> (automaton \<times> (int \<times> string) list) result" where
  "search a text = search_loop a root 0 [] text"

section \<open>\<open>AhoCorasickMatcher.handle_empty_pattern\<close>\<close>


section \<open>Building and scanning\<close>

text \<open>
  The calls a client makes: \<open>add_pattern\<close> for each pattern in turn on a new automaton,
  then \<open>build_failure_links\<close> once, then \<open>search\<close> on the result.
\<close>

definition build :: "string list \<Rightarrow> automaton result" where
  "build ps = build_failure_links (add_patterns new_automaton ps)"

definition build_and_search :: "string list \<Rightarrow> string \<Rightarrow> (int \<times> string) list result" where
  "build_and_search ps text =
     (case build ps of
        None \<Rightarrow> None
      | Some (Inl e) \<Rightarrow> Some (Inl e)
      | Some (Inr a) \<Rightarrow>
          (case search a text of
             None \<Rightarrow> None
           | Some (Inl e) \<Rightarrow> Some (Inl e)
           | Some (Inr (a', matches)) \<Rightarrow> Some (Inr matches)))"

section \<open>Notions of the specification\<close>

text \<open>
  The path-label of a state is the string spelled by the transitions from the root to it:
  \<open>steps h root w = Some n\<close> says that \<open>w\<close> is the path-label of \<open>n\<close>.
\<close>

fun steps :: "node list \<Rightarrow> nat \<Rightarrow> string \<Rightarrow> nat option" where
  "steps h n [] = Some n"
| "steps h n (c # cs) =
     (case map_of (children (h ! n)) c of None \<Rightarrow> None | Some m \<Rightarrow> steps h m cs)"

text \<open>
  The naive sliding-window scan of the specification: every offset \<open>j\<close> in
  \<open>range(len(T) - len(P) + 1)\<close> with \<open>T[j : j + len(P)] == P\<close>.
\<close>

definition naive_scan :: "string \<Rightarrow> string \<Rightarrow> nat list" where
  "naive_scan P T = filter (\<lambda>j. take (length P) (drop j T) = P) [0..<Suc (length T) - length P]"

text \<open>
  The multiset of matches that building on \<open>ps\<close> and scanning \<open>T\<close> returns.
\<close>

definition match_multiset :: "string list \<Rightarrow> string \<Rightarrow> (int \<times> string) multiset" where
  "match_multiset ps T =
     (case build_and_search ps T of Some (Inr ms) \<Rightarrow> mset ms | _ \<Rightarrow> {#})"

section \<open>Invariants\<close>

text \<open>
  The invariants are stated with a labelling \<open>lab\<close> that gives every address its
  path-label.  \<open>wf\<close> says that the store is a trie under this labelling; \<open>trie_inv\<close>
  is what \<open>add_pattern\<close> maintains; \<open>sem\<close>, \<open>linked\<close> and \<open>untouched\<close> describe the
  store while \<open>build_failure_links\<close> runs, \<open>bfs_inv\<close> the queue of the breadth-first
  traversal, \<open>built\<close> the finished automaton.  \<open>ends\<close> and \<open>matches_from\<close> are the
  occurrences of the patterns that end at each position of a text.
\<close>

definition wf :: "node list \<Rightarrow> (nat \<Rightarrow> string) \<Rightarrow> bool" where
  "wf h lab \<longleftrightarrow>
     h \<noteq> [] \<and> lab root = [] \<and> inj_on lab {..<length h}
     \<and> (\<forall>n<length h. distinct (map fst (children (h ! n))))
     \<and> (\<forall>n<length h. \<forall>c m. map_of (children (h ! n)) c = Some m \<longrightarrow>
            m < length h \<and> lab m = lab n @ [c])
     \<and> (\<forall>m<length h. m \<noteq> root \<longrightarrow>
            (\<exists>n<length h. \<exists>c. map_of (children (h ! n)) c = Some m))"

definition extend_node :: "node list \<Rightarrow> nat \<Rightarrow> char \<Rightarrow> node list" where
  "extend_node h cur c =
     h[cur := (h ! cur)\<lparr>children := children (h ! cur) @ [(c, length h)]\<rparr>] @ [new_node]"

definition ext :: "node list \<Rightarrow> node list \<Rightarrow> bool" where
  "ext h h' \<longleftrightarrow> length h \<le> length h'
     \<and> (\<forall>n<length h. failure_link (h' ! n) = failure_link (h ! n) \<and> output (h' ! n) = output (h ! n))
     \<and> (\<forall>n. length h \<le> n \<and> n < length h' \<longrightarrow> failure_link (h' ! n) = None \<and> output (h' ! n) = [])"

definition trie_inv :: "automaton \<Rightarrow> (nat \<Rightarrow> string) \<Rightarrow> bool" where
  "trie_inv a lab \<longleftrightarrow>
     wf (heap a) lab \<and> [] \<notin> set (patterns a)
     \<and> (\<forall>n<length (heap a). failure_link (heap a ! n) = None)
     \<and> (\<forall>n<length (heap a).
           output (heap a ! n) = filter (\<lambda>p. patterns a ! p = lab n) [0..<length (patterns a)])
     \<and> (\<forall>p\<in>set (patterns a). \<exists>n<length (heap a). lab n = p)"

definition fail_ok :: "nat \<Rightarrow> (nat \<Rightarrow> string) \<Rightarrow> nat \<Rightarrow> nat \<Rightarrow> bool" where
  "fail_ok N lab n f \<longleftrightarrow>
     f < N \<and> strict_suffix (lab f) (lab n)
     \<and> (\<forall>k<N. strict_suffix (lab k) (lab n) \<longrightarrow> length (lab k) \<le> length (lab f))"

definition longest :: "nat \<Rightarrow> (nat \<Rightarrow> string) \<Rightarrow> string \<Rightarrow> nat \<Rightarrow> bool" where
  "longest N lab w x \<longleftrightarrow>
     x < N \<and> suffix (lab x) w \<and> (\<forall>k<N. suffix (lab k) w \<longrightarrow> length (lab k) \<le> length (lab x))"

definition lits :: "string list \<Rightarrow> string \<Rightarrow> nat list" where
  "lits pats w = filter (\<lambda>p. pats ! p = w) [0..<length pats]"

definition sufs :: "string list \<Rightarrow> string \<Rightarrow> nat list" where
  "sufs pats w = filter (\<lambda>p. suffix (pats ! p) w) [0..<length pats]"

definition untouched :: "string list \<Rightarrow> (nat \<Rightarrow> string) \<Rightarrow> node list \<Rightarrow> nat \<Rightarrow> bool" where
  "untouched pats lab h n \<longleftrightarrow> failure_link (h ! n) = None \<and> output (h ! n) = lits pats (lab n)"

definition linked :: "string list \<Rightarrow> (nat \<Rightarrow> string) \<Rightarrow> node list \<Rightarrow> nat \<Rightarrow> bool" where
  "linked pats lab h n \<longleftrightarrow>
     (\<exists>f. failure_link (h ! n) = Some f \<and> fail_ok (length h) lab n f)
     \<and> mset (output (h ! n)) = mset (sufs pats (lab n))"

definition sem :: "string list \<Rightarrow> (nat \<Rightarrow> string) \<Rightarrow> node list \<Rightarrow> bool" where
  "sem pats lab h \<longleftrightarrow>
     wf h lab \<and> [] \<notin> set pats \<and> (\<forall>p\<in>set pats. \<exists>n<length h. lab n = p)
     \<and> output (h ! root) = []
     \<and> (\<forall>n<length h. n \<noteq> root \<longrightarrow> untouched pats lab h n \<or> linked pats lab h n)"

definition queued :: "string list \<Rightarrow> (nat \<Rightarrow> string) \<Rightarrow> node list \<Rightarrow> nat list \<Rightarrow> bool" where
  "queued pats lab h q \<longleftrightarrow>
     distinct q \<and> (\<forall>x\<in>set q. x < length h \<and> x \<noteq> root \<and> linked pats lab h x)"

definition depth_sorted :: "(nat \<Rightarrow> string) \<Rightarrow> nat list \<Rightarrow> bool" where
  "depth_sorted lab q \<longleftrightarrow>
     sorted (map (\<lambda>n. length (lab n)) q)
     \<and> (\<forall>x\<in>set q. length (lab x) \<le> Suc (length (lab (hd q))))"

definition frontier :: "string list \<Rightarrow> (nat \<Rightarrow> string) \<Rightarrow> node list \<Rightarrow> nat list \<Rightarrow> bool" where
  "frontier pats lab h q \<longleftrightarrow>
     (\<forall>p<length h. \<forall>c y. map_of (children (h ! p)) c = Some y \<longrightarrow>
        (linked pats lab h y \<longleftrightarrow> p = root \<or> (linked pats lab h p \<and> p \<notin> set q)))"

definition below :: "string list \<Rightarrow> (nat \<Rightarrow> string) \<Rightarrow> node list \<Rightarrow> nat list \<Rightarrow> bool" where
  "below pats lab h q \<longleftrightarrow>
     (\<forall>y<length h. y \<noteq> root \<longrightarrow> q \<noteq> [] \<longrightarrow> length (lab y) < length (lab (hd q)) \<longrightarrow>
        linked pats lab h y \<and> y \<notin> set q)"

definition bfs_inv :: "string list \<Rightarrow> (nat \<Rightarrow> string) \<Rightarrow> node list \<Rightarrow> nat list \<Rightarrow> bool" where
  "bfs_inv pats lab h q \<longleftrightarrow>
     sem pats lab h \<and> queued pats lab h q \<and> depth_sorted lab q
     \<and> frontier pats lab h q \<and> below pats lab h q"

definition built :: "string list \<Rightarrow> (nat \<Rightarrow> string) \<Rightarrow> node list \<Rightarrow> bool" where
  "built pats lab h \<longleftrightarrow> sem pats lab h \<and> (\<forall>n<length h. n \<noteq> root \<longrightarrow> linked pats lab h n)"

definition ends :: "string list \<Rightarrow> string \<Rightarrow> (int \<times> string) multiset" where
  "ends pats w =
     image_mset (\<lambda>q. (int (length w) - int (length q), q)) (filter_mset (\<lambda>q. suffix q w) (mset pats))"

fun matches_from :: "string list \<Rightarrow> string \<Rightarrow> string \<Rightarrow> (int \<times> string) multiset" where
  "matches_from pats pre [] = {#}"
| "matches_from pats pre (c # cs) = ends pats (pre @ [c]) + matches_from pats (pre @ [c]) cs"

section \<open>The trie and its labelling\<close>

lemma wf_nonempty: "wf h lab \<Longrightarrow> 0 < length h"
  by (simp add: wf_def)

lemma wf_root: "wf h lab \<Longrightarrow> lab 0 = []"
  by (simp add: wf_def)

lemma wf_inj: "wf h lab \<Longrightarrow> n < length h \<Longrightarrow> m < length h \<Longrightarrow> lab n = lab m \<Longrightarrow> n = m"
  unfolding wf_def inj_on_def by blast

lemma wf_distinct: "wf h lab \<Longrightarrow> n < length h \<Longrightarrow> distinct (map fst (children (h ! n)))"
  by (simp add: wf_def)

lemma wf_child:
  "wf h lab \<Longrightarrow> n < length h \<Longrightarrow> map_of (children (h ! n)) c = Some m
   \<Longrightarrow> m < length h \<and> lab m = lab n @ [c]"
  unfolding wf_def by blast

lemma wf_parent:
  "wf h lab \<Longrightarrow> m < length h \<Longrightarrow> m \<noteq> 0
   \<Longrightarrow> \<exists>n<length h. \<exists>c. map_of (children (h ! n)) c = Some m"
  unfolding wf_def by blast

lemma wf_root_iff: "wf h lab \<Longrightarrow> n < length h \<Longrightarrow> lab n = [] \<longleftrightarrow> n = 0"
proof -
  assume a: "wf h lab" "n < length h"
  show ?thesis
  proof
    assume "lab n = []"
    then have "lab n = lab 0" using wf_root [OF a(1)] by simp
    then show "n = 0" by (rule wf_inj [OF a wf_nonempty [OF a(1)]])
  next
    assume "n = 0"
    then show "lab n = []" using wf_root [OF a(1)] by simp
  qed
qed

lemma wf_child_iff:
  assumes "wf h lab" "n < length h" "m < length h"
  shows "map_of (children (h ! n)) c = Some m \<longleftrightarrow> lab m = lab n @ [c]"
proof
  assume "map_of (children (h ! n)) c = Some m"
  then show "lab m = lab n @ [c]" using wf_child [OF assms(1,2)] by blast
next
  assume eq: "lab m = lab n @ [c]"
  then have "m \<noteq> 0" using wf_root [OF assms(1)] by (cases m) auto
  then obtain n' c' where p: "n' < length h" "map_of (children (h ! n')) c' = Some m"
    using wf_parent [OF assms(1,3)] by blast
  then have "lab m = lab n' @ [c']" using wf_child [OF assms(1)] by blast
  with eq have "lab n' = lab n" "c' = c" by auto
  then have "n' = n" using wf_inj [OF assms(1) p(1) assms(2)] by simp
  with p \<open>c' = c\<close> show "map_of (children (h ! n)) c = Some m" by simp
qed

lemma wf_prefix_closed:
  assumes "wf h lab" "m < length h" "lab m = w @ [c]"
  shows "\<exists>n<length h. lab n = w \<and> map_of (children (h ! n)) c = Some m"
proof -
  have "m \<noteq> 0" using wf_root [OF assms(1)] assms(3) by (cases m) auto
  then obtain n c' where p: "n < length h" "map_of (children (h ! n)) c' = Some m"
    using wf_parent [OF assms(1,2)] by blast
  then have "lab m = lab n @ [c']" using wf_child [OF assms(1)] by blast
  with assms(3) have "lab n = w" "c' = c" by auto
  with p show ?thesis by blast
qed

lemma wf_cong_imp:
  assumes eq: "map children h' = map children h" and wf: "wf h lab"
  shows "wf h' lab"
proof -
  have len: "length h' = length h" using eq by (metis length_map)
  have ch: "children (h' ! n) = children (h ! n)" if "n < length h" for n
    using eq len that by (metis nth_map)
  have 1: "h' \<noteq> []" using len wf_nonempty [OF wf] by auto
  have 2: "lab root = []" by (rule wf_root [OF wf])
  have 3: "inj_on lab {..<length h'}" using wf unfolding wf_def len by simp
  have 4: "\<forall>n<length h'. distinct (map fst (children (h' ! n)))"
    unfolding len using wf_distinct [OF wf] ch by simp
  have 5: "\<forall>n<length h'. \<forall>c m. map_of (children (h' ! n)) c = Some m \<longrightarrow>
            m < length h' \<and> lab m = lab n @ [c]"
    unfolding len using wf_child [OF wf] ch by simp
  have 6: "\<forall>m<length h'. m \<noteq> root \<longrightarrow>
            (\<exists>n<length h'. \<exists>c. map_of (children (h' ! n)) c = Some m)"
    unfolding len
  proof (intro allI impI)
    fix m assume "m < length h" "m \<noteq> root"
    then obtain n c where "n < length h" "map_of (children (h ! n)) c = Some m"
      using wf_parent [OF wf] by blast
    then show "\<exists>n<length h. \<exists>c. map_of (children (h' ! n)) c = Some m"
      using ch by (intro exI [of _ n]) auto
  qed
  show ?thesis unfolding wf_def by (intro conjI 1 2 3 4 5 6)
qed

lemma steps_append:
  "steps h n (u @ v) = (case steps h n u of None \<Rightarrow> None | Some m \<Rightarrow> steps h m v)"
  by (induction u arbitrary: n) (auto split: option.splits)

lemma steps_lab:
  "wf h lab \<Longrightarrow> n < length h \<Longrightarrow> steps h n w = Some m \<Longrightarrow> m < length h \<and> lab m = lab n @ w"
proof (induction w arbitrary: n)
  case Nil
  then show ?case by simp
next
  case (Cons c cs)
  then obtain k where k: "map_of (children (h ! n)) c = Some k" "steps h k cs = Some m"
    by (auto split: option.splits)
  then have "k < length h" "lab k = lab n @ [c]" using wf_child [OF Cons.prems(1,2)] by blast+
  with Cons.IH [OF Cons.prems(1) _ k(2)] show ?case by simp
qed

lemma lab_steps:
  "wf h lab \<Longrightarrow> m < length h \<Longrightarrow> lab m = w \<Longrightarrow> steps h 0 w = Some m"
proof (induction w arbitrary: m rule: rev_induct)
  case Nil
  then show ?case using wf_root_iff by auto
next
  case (snoc c w)
  then obtain n where n: "n < length h" "lab n = w" "map_of (children (h ! n)) c = Some m"
    using wf_prefix_closed by blast
  then have "steps h 0 w = Some n" using snoc by blast
  then show ?case using n by (simp add: steps_append)
qed

lemma steps_iff:
  assumes "wf h lab"
  shows "steps h 0 w = Some m \<longleftrightarrow> m < length h \<and> lab m = w"
proof
  assume "steps h 0 w = Some m"
  then show "m < length h \<and> lab m = w"
    using steps_lab [OF assms wf_nonempty [OF assms], of w m] wf_root [OF assms] by simp
next
  assume "m < length h \<and> lab m = w"
  then show "steps h 0 w = Some m" using lab_steps [OF assms, of m w] by simp
qed

section \<open>Walking and extending the trie\<close>

lemma extend_node_length [simp]: "length (extend_node h cur c) = Suc (length h)"
  by (simp add: extend_node_def)

lemma map_of_snoc_fresh:
  "map_of xs c = None \<Longrightarrow> map_of (xs @ [(c, v)]) c' = (if c' = c then Some v else map_of xs c')"
  by (induction xs) auto

lemma extend_node_nth:
  assumes "cur < length h" "n \<le> length h"
  shows "extend_node h cur c ! n =
           (if n = length h then new_node
            else if n = cur then (h ! cur)\<lparr>children := children (h ! cur) @ [(c, length h)]\<rparr>
            else h ! n)"
  using assms by (simp add: extend_node_def nth_append nth_list_update)

lemma extend_node_goto:
  assumes "cur < length h" "map_of (children (h ! cur)) c = None" "n \<le> length h"
  shows "map_of (children (extend_node h cur c ! n)) c' =
           (if n = length h then None
            else if n = cur \<and> c' = c then Some (length h)
            else map_of (children (h ! n)) c')"
  using assms(2)
  by (simp add: extend_node_nth [OF assms(1,3)] new_node_def map_of_snoc_fresh
      del: map_of_append)

lemma extend_node_fields:
  assumes "cur < length h" "n \<le> length h"
  shows "failure_link (extend_node h cur c ! n) = (if n = length h then None else failure_link (h ! n))"
    and "output (extend_node h cur c ! n) = (if n = length h then [] else output (h ! n))"
  by (simp_all add: extend_node_nth [OF assms] new_node_def)

lemma extend_node_distinct:
  assumes "cur < length h" "map_of (children (h ! cur)) c = None" "n \<le> length h"
    "n < length h \<Longrightarrow> distinct (map fst (children (h ! n)))"
  shows "distinct (map fst (children (extend_node h cur c ! n)))"
proof -
  have "c \<notin> fst ` set (children (h ! cur))" using assms(2) by (simp add: map_of_eq_None_iff)
  then show ?thesis unfolding extend_node_nth [OF assms(1,3)] using assms(1,3,4)
    by (auto simp add: new_node_def)
qed

lemma wf_extend_node:
  assumes wf: "wf h lab" and cur: "cur < length h"
    and none: "map_of (children (h ! cur)) c = None"
  shows "wf (extend_node h cur c) (lab(length h := lab cur @ [c]))"
proof -
  let ?h = "extend_node h cur c" and ?lab = "lab(length h := lab cur @ [c])"
  note g = extend_node_goto [OF cur none]
  have fresh: "lab m \<noteq> lab cur @ [c]" if "m < length h" for m
    using wf_child_iff [OF wf cur that, of c] none by auto
  have 1: "?h \<noteq> []" by (simp add: extend_node_def)
  have 2: "?lab root = []" using wf_root [OF wf] wf_nonempty [OF wf] by simp
  have 3: "inj_on ?lab {..<length ?h}"
    unfolding inj_on_def
  proof (intro ballI impI)
    fix x y assume xy: "x \<in> {..<length ?h}" "y \<in> {..<length ?h}" "?lab x = ?lab y"
    show "x = y"
    proof (cases "x = length h")
      case True
      then show ?thesis using xy fresh [of y] by (cases "y = length h") auto
    next
      case False
      then show ?thesis using xy fresh [of x] wf_inj [OF wf, of x y]
        by (cases "y = length h") auto
    qed
  qed
  have 4: "\<forall>n<length ?h. distinct (map fst (children (?h ! n)))"
    using extend_node_distinct [OF cur none] wf_distinct [OF wf] by simp
  have 5: "\<forall>n<length ?h. \<forall>c' m. map_of (children (?h ! n)) c' = Some m \<longrightarrow>
            m < length ?h \<and> ?lab m = ?lab n @ [c']"
  proof (intro allI impI)
    fix n c' m assume n: "n < length ?h" and s: "map_of (children (?h ! n)) c' = Some m"
    then have nl: "n \<le> length h" by simp
    show "m < length ?h \<and> ?lab m = ?lab n @ [c']"
    proof (cases "n = cur \<and> c' = c")
      case True
      then show ?thesis using s g [OF nl, of c'] cur by auto
    next
      case False
      then have "n < length h" "map_of (children (h ! n)) c' = Some m"
        using s g [OF nl, of c'] nl by (auto split: if_splits)
      then show ?thesis using wf_child [OF wf, of n c' m] by auto
    qed
  qed
  have 6: "\<forall>m<length ?h. m \<noteq> root \<longrightarrow>
            (\<exists>n<length ?h. \<exists>c'. map_of (children (?h ! n)) c' = Some m)"
  proof (intro allI impI)
    fix m assume m: "m < length ?h" "m \<noteq> root"
    show "\<exists>n<length ?h. \<exists>c'. map_of (children (?h ! n)) c' = Some m"
    proof (cases "m = length h")
      case True
      have "map_of (children (?h ! cur)) c = Some m" using g [of cur c] cur True by simp
      then show ?thesis using cur by (intro exI [of _ cur]) auto
    next
      case False
      then have "m < length h" using m by simp
      then obtain n c' where p: "n < length h" "map_of (children (h ! n)) c' = Some m"
        using wf_parent [OF wf _ m(2)] by blast
      then have "c' \<noteq> c \<or> n \<noteq> cur" using none by auto
      then have "map_of (children (?h ! n)) c' = Some m" using g [of n c'] p by auto
      then show ?thesis using p(1) by (intro exI [of _ n]) auto
    qed
  qed
  show ?thesis unfolding wf_def by (intro conjI 1 2 3 4 5 6)
qed

lemma ext_refl: "ext h h"
  by (auto simp: ext_def)

lemma ext_trans: "ext h h1 \<Longrightarrow> ext h1 h2 \<Longrightarrow> ext h h2"
proof -
  assume a: "ext h h1" and b: "ext h1 h2"
  have l: "length h \<le> length h1" "length h1 \<le> length h2" using a b by (auto simp: ext_def)
  have 1: "failure_link (h2 ! n) = failure_link (h ! n) \<and> output (h2 ! n) = output (h ! n)"
    if "n < length h" for n
  proof -
    have "n < length h1" using that l by simp
    then have "failure_link (h2 ! n) = failure_link (h1 ! n) \<and> output (h2 ! n) = output (h1 ! n)"
      using b by (simp add: ext_def)
    then show ?thesis using a that by (simp add: ext_def)
  qed
  have 2: "failure_link (h2 ! n) = None \<and> output (h2 ! n) = []"
    if "length h \<le> n" "n < length h2" for n
  proof (cases "n < length h1")
    case True
    then have "failure_link (h2 ! n) = failure_link (h1 ! n) \<and> output (h2 ! n) = output (h1 ! n)"
      using b by (simp add: ext_def)
    then show ?thesis using a that True by (simp add: ext_def)
  next
    case False
    then show ?thesis using b that by (simp add: ext_def)
  qed
  show ?thesis unfolding ext_def using l 1 2 by auto
qed

lemma ext_extend_node: "cur < length h \<Longrightarrow> ext h (extend_node h cur c)"
  unfolding ext_def using extend_node_fields [of cur h] by (auto simp: less_Suc_eq_le)

lemma walk_insert_wf:
  assumes "wf h lab" "cur < length h"
  shows "\<exists>lab'. wf (fst (walk_insert h cur w)) lab' \<and> (\<forall>n<length h. lab' n = lab n)
           \<and> ext h (fst (walk_insert h cur w))
           \<and> snd (walk_insert h cur w) < length (fst (walk_insert h cur w))
           \<and> lab' (snd (walk_insert h cur w)) = lab cur @ w"
  using assms
proof (induction w arbitrary: h cur lab)
  case Nil
  then show ?case by (auto simp: ext_refl intro!: exI [of _ lab])
next
  case (Cons c cs)
  show ?case
  proof (cases "map_of (children (h ! cur)) c")
    case (Some nxt)
    then have nxt: "nxt < length h" "lab nxt = lab cur @ [c]"
      using wf_child [OF Cons.prems] by blast+
    have eq: "walk_insert h cur (c # cs) = walk_insert h nxt cs" using Some by simp
    from Cons.IH [OF Cons.prems(1) nxt(1)] show ?thesis unfolding eq nxt(2) by simp
  next
    case None
    let ?h = "extend_node h cur c" and ?lab = "lab(length h := lab cur @ [c])"
    have w1: "wf ?h ?lab" by (rule wf_extend_node [OF Cons.prems None])
    have eq: "walk_insert h cur (c # cs) = walk_insert ?h (length h) cs"
      using None by (simp add: extend_node_def Let_def)
    from Cons.IH [OF w1, of "length h"] obtain lab' where
      L: "wf (fst (walk_insert ?h (length h) cs)) lab'"
         "\<forall>n<length ?h. lab' n = ?lab n"
         "ext ?h (fst (walk_insert ?h (length h) cs))"
         "snd (walk_insert ?h (length h) cs) < length (fst (walk_insert ?h (length h) cs))"
         "lab' (snd (walk_insert ?h (length h) cs)) = ?lab (length h) @ cs"
      by auto
    have "\<forall>n<length h. lab' n = lab n" using L(2) by auto
    moreover have "ext h (fst (walk_insert ?h (length h) cs))"
      using ext_trans [OF ext_extend_node [OF Cons.prems(2)] L(3)] .
    moreover have "lab' (snd (walk_insert ?h (length h) cs)) = lab cur @ c # cs"
      using L(5) by simp
    ultimately show ?thesis unfolding eq using L(1,4) by (intro exI [of _ lab'] conjI)
  qed
qed

section \<open>Inserting patterns\<close>

lemma trie_inv_new: "trie_inv new_automaton (\<lambda>_. [])"
  by (simp add: trie_inv_def new_automaton_def new_node_def wf_def inj_on_def)

lemma add_pattern_heap:
  assumes "p \<noteq> []" "walk_insert (heap a) root p = (h1, t)" "t < length h1"
  shows "heap (add_pattern a p) =
           h1[t := (h1 ! t)\<lparr>is_end_of_pattern := True, output := output (h1 ! t) @ [length (patterns a)]\<rparr>]"
    and "patterns (add_pattern a p) = patterns a @ [p]"
  using assms by (simp_all add: add_pattern_def Let_def)

lemma filter_snoc_patterns:
  "filter (\<lambda>q. (ps @ [p]) ! q = w) [0..<Suc (length ps)]
     = filter (\<lambda>q. ps ! q = w) [0..<length ps] @ (if p = w then [length ps] else [])"
proof -
  have "filter (\<lambda>q. (ps @ [p]) ! q = w) [0..<length ps] = filter (\<lambda>q. ps ! q = w) [0..<length ps]"
    by (rule filter_cong) (auto simp: nth_append)
  then show ?thesis by simp
qed

lemma add_pattern_inv:
  assumes inv: "trie_inv a lab" and ne: "p \<noteq> []"
  shows "\<exists>lab'. trie_inv (add_pattern a p) lab' \<and> (\<forall>n<length (heap a). lab' n = lab n)"
proof -
  let ?h0 = "heap a" and ?ps = "patterns a"
  have wf0: "wf ?h0 lab" using inv by (simp add: trie_inv_def)
  obtain h1 t where wi: "walk_insert ?h0 root p = (h1, t)" by (cases "walk_insert ?h0 root p")
  have "\<exists>lab'. wf h1 lab' \<and> (\<forall>n<length ?h0. lab' n = lab n) \<and> ext ?h0 h1 \<and> t < length h1
          \<and> lab' t = lab root @ p"
    using walk_insert_wf [OF wf0 wf_nonempty [OF wf0], of p] unfolding wi fst_conv snd_conv .
  then obtain lab' where
    L: "wf h1 lab'" "\<forall>n<length ?h0. lab' n = lab n" "ext ?h0 h1" "t < length h1"
       "lab' t = p"
    unfolding wf_root [OF wf0] by auto
  let ?h3 = "h1[t := (h1 ! t)\<lparr>is_end_of_pattern := True, output := output (h1 ! t) @ [length ?ps]\<rparr>]"
  have heap_eq: "heap (add_pattern a p) = ?h3" and pats_eq: "patterns (add_pattern a p) = ?ps @ [p]"
    using add_pattern_heap [OF ne wi L(4)] by blast+
  have len3: "length ?h3 = length h1" by simp
  have "map children ?h3 = map children h1"
    using L(4) by (simp add: list_eq_iff_nth_eq nth_list_update)
  then have wf3: "wf ?h3 lab'" using L(1) by (rule wf_cong_imp)
  have len01: "length ?h0 \<le> length h1" using L(3) by (simp add: ext_def)
  have old_out: "output (h1 ! n) = filter (\<lambda>q. ?ps ! q = lab' n) [0..<length ?ps]"
    if n: "n < length h1" for n
  proof (cases "n < length ?h0")
    case True
    then have "output (h1 ! n) = output (?h0 ! n)" using L(3) by (simp add: ext_def)
    then show ?thesis using inv True L(2) by (simp add: trie_inv_def)
  next
    case False
    then have e: "output (h1 ! n) = []" using L(3) n by (simp add: ext_def)
    have "?ps ! q \<noteq> lab' n" if "q < length ?ps" for q
    proof
      assume eq: "?ps ! q = lab' n"
      have "?ps ! q \<in> set ?ps" using that by simp
      then obtain m where m: "m < length ?h0" "lab m = ?ps ! q"
        using inv unfolding trie_inv_def by blast
      then have "lab' m = lab' n" using L(2) eq by simp
      moreover have "m < length h1" using m(1) len01 by simp
      ultimately have "m = n" using wf_inj [OF L(1) _ n] by blast
      then show False using False m(1) by simp
    qed
    then have "filter (\<lambda>q. ?ps ! q = lab' n) [0..<length ?ps] = []"
      by (simp add: filter_empty_conv)
    then show ?thesis using e by simp
  qed
  have out3: "output (?h3 ! n) = filter (\<lambda>q. (?ps @ [p]) ! q = lab' n) [0..<length (?ps @ [p])]"
    if n: "n < length ?h3" for n
  proof -
    have n1: "n < length h1" using n by simp
    have "p = lab' n \<longleftrightarrow> n = t"
    proof
      assume "p = lab' n"
      then have "lab' n = lab' t" using L(5) by simp
      then show "n = t" by (rule wf_inj [OF L(1) n1 L(4)])
    next
      assume "n = t"
      then show "p = lab' n" using L(5) by simp
    qed
    then show ?thesis
    proof (cases "n = t")
      case True
      have "p = lab' t" using L(5) by simp
      then show ?thesis unfolding True
        using old_out [OF L(4)] L(4) by (simp add: filter_snoc_patterns del: upt_Suc)
    next
      case False
      moreover assume "(p = lab' n) = (n = t)"
      ultimately have "p \<noteq> lab' n" by simp
      then show ?thesis
        using old_out [OF n1] False by (simp add: filter_snoc_patterns del: upt_Suc)
    qed
  qed
  have fl3: "failure_link (?h3 ! n) = None" if n: "n < length ?h3" for n
  proof -
    have n1: "n < length h1" using n by simp
    have "failure_link (h1 ! n) = None"
    proof (cases "n < length ?h0")
      case True
      then show ?thesis using L(3) inv by (simp add: ext_def trie_inv_def)
    next
      case False
      then show ?thesis using L(3) n1 by (simp add: ext_def)
    qed
    then show ?thesis using n1 by (cases "n = t") (simp_all add: nth_list_update)
  qed
  have labs: "\<exists>n<length ?h3. lab' n = q" if q: "q \<in> set (?ps @ [p])" for q
  proof (cases "q = p")
    case True
    then show ?thesis using L(4,5) by auto
  next
    case False
    then have "q \<in> set ?ps" using q by simp
    then obtain m where m: "m < length ?h0" "lab m = q"
      using inv unfolding trie_inv_def by blast
    then show ?thesis using L(2) len01 by (intro exI [of _ m]) auto
  qed
  have nonempty: "[] \<notin> set (?ps @ [p])" using inv ne by (simp add: trie_inv_def)
  have "trie_inv (add_pattern a p) lab'"
    unfolding trie_inv_def heap_eq pats_eq
  proof (intro conjI allI impI ballI)
    show "wf ?h3 lab'" by (rule wf3)
    show "[] \<notin> set (?ps @ [p])" by (rule nonempty)
    show "failure_link (?h3 ! n) = None" if "n < length ?h3" for n by (rule fl3 [OF that])
    show "output (?h3 ! n) = filter (\<lambda>q. (?ps @ [p]) ! q = lab' n) [0..<length (?ps @ [p])]"
      if "n < length ?h3" for n by (rule out3 [OF that])
    show "\<exists>n<length ?h3. lab' n = q" if "q \<in> set (?ps @ [p])" for q by (rule labs [OF that])
  qed
  then show ?thesis using L(2) by blast
qed

lemma add_pattern_Nil: "add_pattern a [] = a"
  by (simp add: add_pattern_def)

lemma add_patterns_inv:
  assumes "trie_inv a lab"
  shows "\<exists>lab'. trie_inv (add_patterns a ps) lab'"
  using assms
proof (induction ps arbitrary: a lab)
  case Nil
  then show ?case by (auto simp: add_patterns_def)
next
  case (Cons p ps)
  have "\<exists>lab'. trie_inv (add_pattern a p) lab'"
  proof (cases "p = []")
    case True
    then show ?thesis using Cons.prems by (auto simp: add_pattern_Nil)
  next
    case False
    then show ?thesis using add_pattern_inv [OF Cons.prems] by blast
  qed
  then obtain lab' where "trie_inv (add_pattern a p) lab'" by blast
  from Cons.IH [OF this] show ?case by (simp add: add_patterns_def)
qed

lemma add_pattern_patterns:
  "patterns (add_pattern a p) = patterns a @ (if p = [] then [] else [p])"
proof (cases "p = []")
  case True
  then show ?thesis by (simp add: add_pattern_Nil)
next
  case False
  obtain h1 t where "walk_insert (heap a) root p = (h1, t)" by (cases "walk_insert (heap a) root p")
  then show ?thesis using False by (simp add: add_pattern_def Let_def)
qed

lemma add_patterns_patterns:
  "patterns (add_patterns a ps) = patterns a @ filter (\<lambda>p. p \<noteq> []) ps"
  unfolding add_patterns_def
  by (induction ps arbitrary: a) (simp_all add: add_pattern_patterns)

section \<open>The fallback loop\<close>

lemma fallback_Some:
  "fallback h c (Some n) =
     (if n \<noteq> root \<and> map_of (children (h ! n)) c = None
      then fallback h c (failure_link (h ! n)) else Some (Inr n))"
  by (subst fallback.simps) simp

lemma fallback_None: "fallback h c None = Some (Inl AttributeError)"
  by (subst fallback.simps) simp

lemma strict_suffix_length: "strict_suffix u v \<Longrightarrow> length u < length v"
  by (metis strict_suffix_def suffix_length_le suffix_order.dual_order.antisym
      le_neq_implies_less suffix_def append_eq_append_conv append_self_conv2 length_append)

lemma fallback_correct:
  assumes wf: "wf h lab"
    and links: "\<And>k. k < length h \<Longrightarrow> k \<noteq> 0 \<Longrightarrow> length (lab k) \<le> d
                 \<Longrightarrow> \<exists>f. failure_link (h ! k) = Some f \<and> fail_ok (length h) lab k f"
    and x: "x < length h" "length (lab x) \<le> d"
  shows "\<exists>y<length h. fallback h c (Some x) = Some (Inr y) \<and> suffix (lab y) (lab x)
           \<and> (y = 0 \<or> map_of (children (h ! y)) c \<noteq> None)
           \<and> (\<forall>k<length h. suffix (lab k) (lab x) \<and> map_of (children (h ! k)) c \<noteq> None
                 \<longrightarrow> length (lab k) \<le> length (lab y))"
  using x
proof (induction "length (lab x)" arbitrary: x rule: less_induct)
  case less
  show ?case
  proof (cases "x \<noteq> 0 \<and> map_of (children (h ! x)) c = None")
    case False
    then have fb: "fallback h c (Some x) = Some (Inr x)" by (subst fallback_Some) auto
    have mx: "length (lab k) \<le> length (lab x)"
      if "k < length h" "suffix (lab k) (lab x)" for k
      using that by (simp add: suffix_length_le)
    show ?thesis
      using fb False less.prems(1) mx by (intro exI [of _ x]) auto
  next
    case True
    then obtain f where f: "failure_link (h ! x) = Some f" "fail_ok (length h) lab x f"
      using links [OF less.prems(1) _ less.prems(2)] by blast
    have fl: "f < length h" and fs: "strict_suffix (lab f) (lab x)"
      and fm: "\<And>k. k < length h \<Longrightarrow> strict_suffix (lab k) (lab x) \<Longrightarrow> length (lab k) \<le> length (lab f)"
      using f(2) by (auto simp: fail_ok_def)
    have lt: "length (lab f) < length (lab x)" using fs by (rule strict_suffix_length)
    have fb: "fallback h c (Some x) = fallback h c (Some f)"
      using True f(1) by (simp add: fallback_Some)
    from less.hyps [OF lt fl] lt less.prems(2) obtain y where
      y: "y < length h" "fallback h c (Some f) = Some (Inr y)" "suffix (lab y) (lab f)"
         "y = 0 \<or> map_of (children (h ! y)) c \<noteq> None"
         "\<And>k. k < length h \<Longrightarrow> suffix (lab k) (lab f) \<Longrightarrow> map_of (children (h ! k)) c \<noteq> None
                 \<Longrightarrow> length (lab k) \<le> length (lab y)"
      by force
    have s: "suffix (lab y) (lab x)"
      using y(3) fs by (meson strict_suffix_def suffix_order.trans)
    have mx: "length (lab k) \<le> length (lab y)"
      if k: "k < length h" "suffix (lab k) (lab x)" "map_of (children (h ! k)) c \<noteq> None" for k
    proof -
      have "k \<noteq> x" using k(3) True by auto
      then have "lab k \<noteq> lab x" using wf_inj [OF wf k(1) less.prems(1)] by blast
      then have ss: "strict_suffix (lab k) (lab x)" using k(2) by (simp add: strict_suffix_def)
      then have "length (lab k) \<le> length (lab f)" by (rule fm [OF k(1)])
      then have "suffix (lab k) (lab f)"
        using k(2) fs by (meson strict_suffix_def suffix_length_suffix)
      then show ?thesis by (rule y(5) [OF k(1) _ k(3)])
    qed
    show ?thesis
      unfolding fb using y(1,2,4) s mx by (intro exI [of _ y]) auto
  qed
qed

lemma next_state_correct:
  assumes wf: "wf h lab"
    and x: "longest (length h) lab w x"
    and y: "y < length h" "suffix (lab y) (lab x)"
      "y = 0 \<or> map_of (children (h ! y)) c \<noteq> None"
      "\<And>k. k < length h \<Longrightarrow> suffix (lab k) (lab x) \<Longrightarrow> map_of (children (h ! k)) c \<noteq> None
         \<Longrightarrow> length (lab k) \<le> length (lab y)"
  shows "longest (length h) lab (w @ [c])
           (case map_of (children (h ! y)) c of Some t \<Rightarrow> t | None \<Rightarrow> 0)"
proof -
  have xl: "x < length h" and xs: "suffix (lab x) w"
    and xm: "\<And>k. k < length h \<Longrightarrow> suffix (lab k) w \<Longrightarrow> length (lab k) \<le> length (lab x)"
    using x by (auto simp: longest_def)
  text \<open>A non-empty suffix of \<open>w @ [c]\<close> that is a label comes from a suffix of \<open>lab x\<close>.\<close>
  have step: "\<exists>k'<length h. suffix (lab k') (lab x) \<and> map_of (children (h ! k')) c = Some k"
    if k: "k < length h" "suffix (lab k) (w @ [c])" "lab k \<noteq> []" for k
  proof -
    obtain v where v: "lab k = v @ [c]" "suffix v w"
      using k(2,3) by (metis suffix_snoc snoc_suffix_snoc)
    then obtain k' where k': "k' < length h" "lab k' = v" "map_of (children (h ! k')) c = Some k"
      using wf_prefix_closed [OF wf k(1)] by blast
    have "length (lab k') \<le> length (lab x)" using xm [OF k'(1)] v(2) k'(2) by simp
    then have "suffix (lab k') (lab x)"
      using xs v(2) k'(2) by (meson suffix_length_suffix)
    then show ?thesis using k' by blast
  qed
  show ?thesis
  proof (cases "map_of (children (h ! y)) c")
    case None
    then have y0: "y = 0" using y(3) by simp
    have "lab k = []" if k: "k < length h" "suffix (lab k) (w @ [c])" for k
    proof (rule ccontr)
      assume "lab k \<noteq> []"
      then obtain k' where k': "k' < length h" "suffix (lab k') (lab x)"
        "map_of (children (h ! k')) c = Some k"
        using step [OF k] by blast
      then have "length (lab k') \<le> length (lab y)" using y(4) [OF k'(1,2)] by simp
      then have "lab k' = []" using y0 wf_root [OF wf] by simp
      then have "k' = 0" using wf_root_iff [OF wf k'(1)] by simp
      then show False using k'(3) None y0 by simp
    qed
    then show ?thesis
      using None wf_nonempty [OF wf] wf_root [OF wf] by (simp add: longest_def)
  next
    case (Some t)
    then have t: "t < length h" "lab t = lab y @ [c]" using wf_child [OF wf y(1)] by blast+
    have "suffix (lab y) w" using y(2) xs by (rule suffix_order.trans)
    then have ts: "suffix (lab t) (w @ [c])" using t(2) by simp
    have "length (lab k) \<le> length (lab t)" if k: "k < length h" "suffix (lab k) (w @ [c])" for k
    proof (cases "lab k = []")
      case True
      then show ?thesis by simp
    next
      case False
      then obtain k' where k': "k' < length h" "suffix (lab k') (lab x)"
        "map_of (children (h ! k')) c = Some k"
        using step [OF k] by blast
      then have "length (lab k') \<le> length (lab y)" using y(4) [OF k'(1,2)] by simp
      moreover have "lab k = lab k' @ [c]" using wf_child [OF wf k'(1,3)] by simp
      ultimately show ?thesis using t(2) by simp
    qed
    then show ?thesis using Some t(1) ts by (simp add: longest_def)
  qed
qed

section \<open>Linking one child\<close>

lemma sem_wf: "sem pats lab h \<Longrightarrow> wf h lab"
  by (simp add: sem_def)

lemma sufs_Nil: "[] \<notin> set pats \<Longrightarrow> sufs pats [] = []"
proof -
  assume a: "[] \<notin> set pats"
  have "pats ! p \<noteq> []" if "p < length pats" for p
    using a nth_mem [OF that] by metis
  then show ?thesis unfolding sufs_def by (simp add: filter_empty_conv)
qed

lemma suffix_strict_trans: "suffix a b \<Longrightarrow> strict_suffix b c \<Longrightarrow> strict_suffix a c"
  unfolding strict_suffix_def
  by (metis suffix_order.trans suffix_order.dual_order.antisym)

lemma mset_filter_split:
  "(\<And>x. x \<in> set xs \<Longrightarrow> (P x \<longleftrightarrow> Q x \<or> R x) \<and> \<not> (Q x \<and> R x))
   \<Longrightarrow> mset (filter P xs) = mset (filter Q xs) + mset (filter R xs)"
  by (induction xs) auto

lemma sufs_split:
  assumes labs: "\<forall>p\<in>set pats. \<exists>n<N. lab n = p" and f: "fail_ok N lab m f"
  shows "mset (sufs pats (lab m)) = mset (lits pats (lab m)) + mset (sufs pats (lab f))"
  unfolding sufs_def lits_def
proof (rule mset_filter_split)
  fix p assume "p \<in> set [0..<length pats]"
  then have "pats ! p \<in> set pats" by simp
  then obtain k where k: "k < N" "lab k = pats ! p" using labs by blast
  have fs: "strict_suffix (lab f) (lab m)"
    and fm: "\<And>k. k < N \<Longrightarrow> strict_suffix (lab k) (lab m) \<Longrightarrow> length (lab k) \<le> length (lab f)"
    using f by (auto simp: fail_ok_def)
  have 1: "suffix (pats ! p) (lab f)" if "suffix (pats ! p) (lab m)" "pats ! p \<noteq> lab m"
  proof -
    have ss: "strict_suffix (lab k) (lab m)" using that k(2) by (simp add: strict_suffix_def)
    then have "length (lab k) \<le> length (lab f)" by (rule fm [OF k(1)])
    then have "suffix (lab k) (lab f)"
      using ss fs by (meson strict_suffix_def suffix_length_suffix)
    then show ?thesis using k(2) by simp
  qed
  have 2: "suffix (pats ! p) (lab m)" if "suffix (pats ! p) (lab f)"
    using that fs by (meson strict_suffix_def suffix_order.trans)
  have 3: "\<not> suffix (lab m) (lab f)"
    using strict_suffix_length [OF fs] suffix_length_le [of "lab m" "lab f"] by auto
  show "(suffix (pats ! p) (lab m) \<longleftrightarrow> pats ! p = lab m \<or> suffix (pats ! p) (lab f))
          \<and> \<not> (pats ! p = lab m \<and> suffix (pats ! p) (lab f))"
    using 1 2 3 by auto
qed

lemma untouched_cong:
  "h' ! n = h ! n \<Longrightarrow> untouched pats lab h' n = untouched pats lab h n"
  by (simp add: untouched_def)

lemma linked_cong:
  "h' ! n = h ! n \<Longrightarrow> length h' = length h \<Longrightarrow> linked pats lab h' n = linked pats lab h n"
  by (simp add: linked_def)

lemma link_child_result:
  assumes "fallback h c (failure_link (h ! cur)) = Some (Inr y)" "m < length h"
    "t = (case map_of (children (h ! y)) c of Some t \<Rightarrow> t | None \<Rightarrow> root)" "t \<noteq> m"
  shows "link_child h cur c m =
           Some (Inr (h[m := (h ! m)\<lparr>failure_link := Some t, output := output (h ! m) @ output (h ! t)\<rparr>]))"
  using assms by (simp add: link_child_def Let_def)

lemma sem_update:
  assumes sem: "sem pats lab h" and m: "m < length h" "m \<noteq> 0"
    and nd: "children nd = children (h ! m)"
    and lk: "linked pats lab (h[m := nd]) m"
  shows "sem pats lab (h[m := nd])"
proof -
  let ?h = "h[m := nd]"
  have "map children ?h = map children h"
    using m(1) nd by (simp add: map_update list_update_same_conv)
  then have w: "wf ?h lab" using sem_wf [OF sem] by (rule wf_cong_imp)
  have o: "output (?h ! root) = []" using sem m by (simp add: sem_def)
  have n: "untouched pats lab ?h n \<or> linked pats lab ?h n" if "n < length ?h" "n \<noteq> root" for n
  proof (cases "n = m")
    case True
    then show ?thesis using lk by simp
  next
    case False
    then have e: "?h ! n = h ! n" by simp
    have "untouched pats lab h n \<or> linked pats lab h n" using sem that by (simp add: sem_def)
    then show ?thesis
      using untouched_cong [OF e, of pats lab] linked_cong [OF e, of pats lab] by simp
  qed
  show ?thesis
    unfolding sem_def
  proof (intro conjI allI impI)
    show "wf ?h lab" by (rule w)
    show "[] \<notin> set pats" using sem by (simp add: sem_def)
    show "\<forall>p\<in>set pats. \<exists>n<length ?h. lab n = p" using sem by (simp add: sem_def)
    show "output (?h ! root) = []" by (rule o)
    show "untouched pats lab ?h n \<or> linked pats lab ?h n" if "n < length ?h" "n \<noteq> root" for n
      by (rule n [OF that])
  qed
qed

lemma link_child_sem:
  assumes sem: "sem pats lab h" and cur: "cur < length h" "linked pats lab h cur"
    and lvl: "\<And>k. k < length h \<Longrightarrow> k \<noteq> 0 \<Longrightarrow> length (lab k) \<le> length (lab cur)
                \<Longrightarrow> linked pats lab h k"
    and ch: "map_of (children (h ! cur)) c = Some m" and un: "untouched pats lab h m"
  shows "\<exists>h'. link_child h cur c m = Some (Inr h') \<and> sem pats lab h' \<and> length h' = length h
           \<and> linked pats lab h' m \<and> (\<forall>n. n \<noteq> m \<longrightarrow> h' ! n = h ! n)"
proof -
  let ?N = "length h"
  have wf: "wf h lab" by (rule sem_wf [OF sem])
  have m: "m < ?N" "lab m = lab cur @ [c]" using wf_child [OF wf cur(1) ch] by blast+
  have m0: "m \<noteq> 0" using m(2) wf_root [OF wf] by (cases m) auto
  obtain f0 where f0: "failure_link (h ! cur) = Some f0" "fail_ok ?N lab cur f0"
    using cur(2) by (auto simp: linked_def)
  have f0l: "f0 < ?N" and f0s: "strict_suffix (lab f0) (lab cur)"
    and f0m: "\<And>k. k < ?N \<Longrightarrow> strict_suffix (lab k) (lab cur) \<Longrightarrow> length (lab k) \<le> length (lab f0)"
    using f0(2) by (auto simp: fail_ok_def)
  have links: "\<exists>f. failure_link (h ! k) = Some f \<and> fail_ok ?N lab k f"
    if "k < ?N" "k \<noteq> 0" "length (lab k) \<le> length (lab cur)" for k
    using lvl [OF that] by (simp add: linked_def)
  have f0d: "length (lab f0) \<le> length (lab cur)"
    using strict_suffix_length [OF f0s] by simp
  from fallback_correct [OF wf links f0l f0d, of c] obtain y where
    y: "y < ?N" "fallback h c (Some f0) = Some (Inr y)" "suffix (lab y) (lab f0)"
       "y = 0 \<or> map_of (children (h ! y)) c \<noteq> None"
       "\<And>k. k < ?N \<Longrightarrow> suffix (lab k) (lab f0) \<Longrightarrow> map_of (children (h ! k)) c \<noteq> None
          \<Longrightarrow> length (lab k) \<le> length (lab y)"
    by force
  define t where "t = (case map_of (children (h ! y)) c of Some t \<Rightarrow> t | None \<Rightarrow> root)"
  have lf0: "longest ?N lab (lab f0) f0"
    using f0l by (simp add: longest_def suffix_length_le)
  have lt: "longest ?N lab (lab f0 @ [c]) t"
    unfolding t_def by (rule next_state_correct [OF wf lf0 y(1,3,4,5)])
  then have tl: "t < ?N" and ts: "suffix (lab t) (lab f0 @ [c])"
    and tm: "\<And>k. k < ?N \<Longrightarrow> suffix (lab k) (lab f0 @ [c]) \<Longrightarrow> length (lab k) \<le> length (lab t)"
    by (auto simp: longest_def)
  have ss0: "strict_suffix (lab f0 @ [c]) (lab m)"
    using f0s unfolding m(2) strict_suffix_def by simp
  have tss: "strict_suffix (lab t) (lab m)"
    using ts ss0 by (rule suffix_strict_trans)
  have tmax: "length (lab k) \<le> length (lab t)" if k: "k < ?N" "strict_suffix (lab k) (lab m)" for k
  proof (cases "lab k = []")
    case True
    then show ?thesis by simp
  next
    case False
    have "suffix (lab k) (lab cur @ [c])" using k(2) m(2) by (simp add: strict_suffix_def)
    then obtain v where v: "lab k = v @ [c]" "suffix v (lab cur)"
      using False by (metis suffix_snoc)
    have "v \<noteq> lab cur" using k(2) v(1) m(2) by (auto simp: strict_suffix_def)
    then have vs: "strict_suffix v (lab cur)" using v(2) by (simp add: strict_suffix_def)
    obtain k' where k': "k' < ?N" "lab k' = v"
      using wf_prefix_closed [OF wf k(1) v(1)] by blast
    have "length v \<le> length (lab f0)" using f0m [OF k'(1)] vs k'(2) by simp
    then have "suffix v (lab f0)"
      using v(2) f0s by (meson strict_suffix_def suffix_length_suffix)
    then have "suffix (lab k) (lab f0 @ [c])" using v(1) by simp
    then show ?thesis by (rule tm [OF k(1)])
  qed
  have fok: "fail_ok ?N lab m t"
    unfolding fail_ok_def using tl tss tmax by blast
  have tlen: "length (lab t) < length (lab m)" using tss by (rule strict_suffix_length)
  then have tm': "t \<noteq> m" by auto
  have tout: "mset (output (h ! t)) = mset (sufs pats (lab t))"
  proof (cases "t = 0")
    case True
    then show ?thesis using sem wf_root [OF wf] by (simp add: sem_def sufs_Nil)
  next
    case False
    have "length (lab t) \<le> length (lab cur)" using tlen m(2) by simp
    then show ?thesis using lvl [OF tl False] by (simp add: linked_def)
  qed
  let ?nd = "(h ! m)\<lparr>failure_link := Some t, output := output (h ! m) @ output (h ! t)\<rparr>"
  let ?h = "h[m := ?nd]"
  have res: "link_child h cur c m = Some (Inr ?h)"
    using link_child_result [OF _ m(1) t_def tm'] y(2) f0(1) by simp
  have labs: "\<forall>p\<in>set pats. \<exists>n<?N. lab n = p" using sem by (simp add: sem_def)
  have "mset (output (?h ! m)) = mset (lits pats (lab m)) + mset (sufs pats (lab t))"
    using m(1) un tout by (simp add: untouched_def)
  then have "mset (output (?h ! m)) = mset (sufs pats (lab m))"
    using sufs_split [OF labs fok] by simp
  then have lk: "linked pats lab ?h m"
    using m(1) fok by (simp add: linked_def)
  have "sem pats lab ?h"
    by (rule sem_update [OF sem m(1) m0 _ lk]) simp
  then show ?thesis
    using res lk by (intro exI [of _ ?h]) simp
qed

section \<open>Linking the children of a state\<close>

lemma wf_children_distinct:
  assumes wf: "wf h lab" and n: "n < length h"
  shows "distinct (map snd (children (h ! n)))"
proof -
  let ?xs = "children (h ! n)"
  have d: "distinct (map fst ?xs)" by (rule wf_distinct [OF wf n])
  then have dx: "distinct ?xs" by (simp add: distinct_map)
  have "inj_on snd (set ?xs)"
  proof (rule inj_onI)
    fix a b assume ab: "a \<in> set ?xs" "b \<in> set ?xs" "snd a = snd b"
    obtain c m where a: "a = (c, m)" by (cases a)
    obtain c' m' where b: "b = (c', m')" by (cases b)
    have "map_of ?xs c = Some m" using ab(1) a d by simp
    then have 1: "lab m = lab n @ [c]" using wf_child [OF wf n] by blast
    have "map_of ?xs c' = Some m'" using ab(2) b d by simp
    then have 2: "lab m' = lab n @ [c']" using wf_child [OF wf n] by blast
    have "m = m'" using ab(3) a b by simp
    then have "c = c'" using 1 2 by simp
    then show "a = b" using a b \<open>m = m'\<close> by simp
  qed
  then show ?thesis using dx by (simp add: distinct_map)
qed

lemma wf_children_map_of:
  assumes wf: "wf h lab" and n: "n < length h" and cm: "(c, m) \<in> set (children (h ! n))"
  shows "map_of (children (h ! n)) c = Some m"
  using wf_distinct [OF wf n] cm by simp

lemma link_children_sem:
  assumes sem: "sem pats lab h" and cur: "cur < length h" "linked pats lab h cur"
    and lvl: "\<And>k. k < length h \<Longrightarrow> k \<noteq> 0 \<Longrightarrow> length (lab k) \<le> length (lab cur)
                \<Longrightarrow> linked pats lab h k"
    and items: "\<And>c m. (c, m) \<in> set items
                \<Longrightarrow> map_of (children (h ! cur)) c = Some m \<and> untouched pats lab h m"
    and dist: "distinct (map snd items)"
  shows "\<exists>h'. link_children h q cur items = Some (Inr (h', q @ map snd items))
           \<and> sem pats lab h' \<and> length h' = length h
           \<and> (\<forall>m\<in>snd ` set items. linked pats lab h' m)
           \<and> (\<forall>n. n \<notin> snd ` set items \<longrightarrow> h' ! n = h ! n)"
  using assms
proof (induction items arbitrary: h q)
  case Nil
  then show ?case by simp
next
  case (Cons item items)
  obtain c m where item: "item = (c, m)" by (cases item)
  have wf: "wf h lab" by (rule sem_wf [OF Cons.prems(1)])
  have ch: "map_of (children (h ! cur)) c = Some m" and un: "untouched pats lab h m"
    using Cons.prems(5) [of c m] item by simp_all
  have m: "m < length h" "lab m = lab cur @ [c]" using wf_child [OF wf Cons.prems(2) ch] by blast+
  from link_child_sem [OF Cons.prems(1,2,3) Cons.prems(4) ch un] obtain h1 where
    h1: "link_child h cur c m = Some (Inr h1)" "sem pats lab h1" "length h1 = length h"
        "linked pats lab h1 m" "\<And>n. n \<noteq> m \<Longrightarrow> h1 ! n = h ! n"
    by blast
  have same: "h1 ! k = h ! k" if "length (lab k) \<le> length (lab cur)" for k
  proof -
    have "k \<noteq> m" using that m(2) by auto
    then show ?thesis by (rule h1(5))
  qed
  have cur1: "cur < length h1" using Cons.prems(2) h1(3) by simp
  have e_cur: "h1 ! cur = h ! cur" by (rule same) simp
  have lcur1: "linked pats lab h1 cur"
    using Cons.prems(3) linked_cong [OF e_cur h1(3)] by simp
  have lvl1: "linked pats lab h1 k"
    if "k < length h1" "k \<noteq> 0" "length (lab k) \<le> length (lab cur)" for k
  proof -
    have "linked pats lab h k" using Cons.prems(4) [of k] that h1(3) by simp
    then show ?thesis using linked_cong [OF same [OF that(3)] h1(3)] by simp
  qed
  have nin: "m \<notin> snd ` set items" using Cons.prems(6) item by simp
  have items1: "map_of (children (h1 ! cur)) c' = Some m' \<and> untouched pats lab h1 m'"
    if "(c', m') \<in> set items" for c' m'
  proof -
    have a: "map_of (children (h ! cur)) c' = Some m' \<and> untouched pats lab h m'"
      using Cons.prems(5) [of c' m'] that by simp
    have "m' \<noteq> m" using nin that by force
    then have "h1 ! m' = h ! m'" by (rule h1(5))
    then show ?thesis using a e_cur untouched_cong [of h1 m' h pats lab] by simp
  qed
  have dist1: "distinct (map snd items)" using Cons.prems(6) by simp
  from Cons.IH [OF h1(2) cur1 lcur1 lvl1 items1 dist1, of "q @ [m]"] obtain h' where
    h': "link_children h1 (q @ [m]) cur items = Some (Inr (h', (q @ [m]) @ map snd items))"
        "sem pats lab h'" "length h' = length h1"
        "\<forall>m\<in>snd ` set items. linked pats lab h' m"
        "\<forall>n. n \<notin> snd ` set items \<longrightarrow> h' ! n = h1 ! n"
    by blast
  have r: "link_children h q cur (item # items) = Some (Inr (h', q @ map snd (item # items)))"
    using h1(1) h'(1) item by simp
  have "h' ! m = h1 ! m" using h'(5) nin by simp
  then have lm: "linked pats lab h' m" using h1(4) linked_cong [of h' m h1 pats lab] h'(3) by simp
  have l: "\<forall>k\<in>snd ` set (item # items). linked pats lab h' k"
    using lm h'(4) item by simp
  have u: "\<forall>n. n \<notin> snd ` set (item # items) \<longrightarrow> h' ! n = h ! n"
    using h'(5) h1(5) item by simp
  show ?case
    using r h'(2) h'(3) h1(3) l u by (intro exI [of _ h']) simp
qed

section \<open>The breadth-first queue\<close>

lemma linked_not_untouched: "linked pats lab h n \<Longrightarrow> \<not> untouched pats lab h n"
  by (auto simp: linked_def untouched_def)

lemma sem_cases:
  "sem pats lab h \<Longrightarrow> n < length h \<Longrightarrow> n \<noteq> 0 \<Longrightarrow> \<not> linked pats lab h n
   \<Longrightarrow> untouched pats lab h n"
  unfolding sem_def by blast

lemma frontierD:
  "frontier pats lab h q \<Longrightarrow> p < length h \<Longrightarrow> map_of (children (h ! p)) c = Some y
   \<Longrightarrow> linked pats lab h y \<longleftrightarrow> p = 0 \<or> (linked pats lab h p \<and> p \<notin> set q)"
  unfolding frontier_def by blast

lemma belowD:
  "below pats lab h q \<Longrightarrow> y < length h \<Longrightarrow> y \<noteq> 0 \<Longrightarrow> q \<noteq> []
   \<Longrightarrow> length (lab y) < length (lab (hd q)) \<Longrightarrow> linked pats lab h y \<and> y \<notin> set q"
  unfolding below_def by blast

lemma bfs_level:
  assumes wf: "wf h lab" and fr: "frontier pats lab h (x # rest)"
    and be: "below pats lab h (x # rest)"
    and k: "k < length h" "k \<noteq> 0" "length (lab k) \<le> length (lab x)"
  shows "linked pats lab h k"
proof -
  obtain p c where p: "p < length h" "map_of (children (h ! p)) c = Some k"
    using wf_parent [OF wf k(1,2)] by blast
  have "lab k = lab p @ [c]" using wf_child [OF wf p] by simp
  then have lt: "length (lab p) < length (lab (hd (x # rest)))" using k(3) by simp
  show ?thesis
  proof (cases "p = 0")
    case True
    then show ?thesis using frontierD [OF fr p] by simp
  next
    case False
    have "linked pats lab h p \<and> p \<notin> set (x # rest)"
      by (rule belowD [OF be p(1) False _ lt]) simp
    then show ?thesis using frontierD [OF fr p] by simp
  qed
qed

lemma bfs_final:
  assumes wf: "wf h lab" and fr: "frontier pats lab h []"
  shows "n < length h \<Longrightarrow> n \<noteq> 0 \<Longrightarrow> linked pats lab h n"
proof (induction "length (lab n)" arbitrary: n rule: less_induct)
  case less
  obtain p c where p: "p < length h" "map_of (children (h ! p)) c = Some n"
    using wf_parent [OF wf less.prems] by blast
  have "lab n = lab p @ [c]" using wf_child [OF wf p] by simp
  then have lt: "length (lab p) < length (lab n)" by simp
  show ?case
  proof (cases "p = 0")
    case True
    then show ?thesis using frontierD [OF fr p] by simp
  next
    case False
    have "linked pats lab h p" by (rule less.hyps [OF lt p(1) False])
    then show ?thesis using frontierD [OF fr p] by simp
  qed
qed

lemma sorted_map_const:
  "(\<And>x. x \<in> set xs \<Longrightarrow> f x = (c::nat)) \<Longrightarrow> sorted (map f xs)"
  by (induction xs) auto

lemma bfs_step_inv:
  assumes inv: "bfs_inv pats lab h (x # rest)"
    and sem': "sem pats lab h'" and len: "length h' = length h"
    and lk: "\<forall>m\<in>snd ` set (children (h ! x)). linked pats lab h' m"
    and same: "\<forall>n. n \<notin> snd ` set (children (h ! x)) \<longrightarrow> h' ! n = h ! n"
  shows "bfs_inv pats lab h' (rest @ map snd (children (h ! x)))"
proof -
  let ?M = "snd ` set (children (h ! x))"
  let ?q = "rest @ map snd (children (h ! x))"
  have sem: "sem pats lab h" and qu: "queued pats lab h (x # rest)"
    and ds: "depth_sorted lab (x # rest)" and fr: "frontier pats lab h (x # rest)"
    and be: "below pats lab h (x # rest)"
    using inv by (simp_all add: bfs_inv_def)
  have wf: "wf h lab" by (rule sem_wf [OF sem])
  have wf': "wf h' lab" by (rule sem_wf [OF sem'])
  have x: "x < length h" "x \<noteq> 0" "linked pats lab h x" "x \<notin> set rest" "distinct rest"
    using qu by (simp_all add: queued_def)
  have rest: "y < length h \<and> y \<noteq> 0 \<and> linked pats lab h y" if "y \<in> set rest" for y
    using qu that by (simp add: queued_def)
  have M_iff: "m \<in> ?M \<longleftrightarrow> (\<exists>c. map_of (children (h ! x)) c = Some m)" for m
  proof
    assume "m \<in> ?M"
    then obtain c where "(c, m) \<in> set (children (h ! x))" by force
    then show "\<exists>c. map_of (children (h ! x)) c = Some m"
      using wf_children_map_of [OF wf x(1)] by blast
  next
    assume "\<exists>c. map_of (children (h ! x)) c = Some m"
    then obtain c where "map_of (children (h ! x)) c = Some m" by blast
    then have "(c, m) \<in> set (children (h ! x))" by (rule map_of_SomeD)
    then show "m \<in> ?M" by force
  qed
  have M_D: "\<exists>c. map_of (children (h ! x)) c = Some m" if "m \<in> ?M" for m
    using M_iff [of m] that by simp
  have M_I: "m \<in> ?M" if "map_of (children (h ! x)) c = Some m" for m c
    using M_iff [of m] that by blast
  have M: "m < length h \<and> m \<noteq> 0 \<and> length (lab m) = Suc (length (lab x))
             \<and> \<not> linked pats lab h m" if mM: "m \<in> ?M" for m
  proof -
    obtain c where c: "map_of (children (h ! x)) c = Some m" using M_D [OF mM] by blast
    have m: "m < length h" "lab m = lab x @ [c]" using wf_child [OF wf x(1) c] by blast+
    have m0: "m \<noteq> 0" using m(2) wf_root [OF wf] by (cases m) auto
    have "\<not> linked pats lab h m" using frontierD [OF fr x(1) c] x(2) by simp
    then show ?thesis using m m0 by simp
  qed
  have L: "linked pats lab h' n \<longleftrightarrow> linked pats lab h n \<or> n \<in> ?M" for n
  proof (cases "n \<in> ?M")
    case True
    then show ?thesis using lk by blast
  next
    case False
    then have "h' ! n = h ! n" using same by blast
    then show ?thesis using False linked_cong [of h' n h pats lab] len by simp
  qed
  have child_eq: "map_of (children (h' ! p)) c = Some y \<longleftrightarrow> map_of (children (h ! p)) c = Some y"
    if p: "p < length h" for p c y
  proof
    assume a: "map_of (children (h' ! p)) c = Some y"
    have p': "p < length h'" using p len by simp
    have "y < length h'" "lab y = lab p @ [c]" using wf_child [OF wf' p' a] by blast+
    then show "map_of (children (h ! p)) c = Some y"
      using wf_child_iff [OF wf p, of y c] len by simp
  next
    assume a: "map_of (children (h ! p)) c = Some y"
    have p': "p < length h'" using p len by simp
    have "y < length h" "lab y = lab p @ [c]" using wf_child [OF wf p a] by blast+
    then show "map_of (children (h' ! p)) c = Some y"
      using wf_child_iff [OF wf' p', of y c] len by simp
  qed
  have lvl: "linked pats lab h k" if "k < length h" "k \<noteq> 0" "length (lab k) \<le> length (lab x)" for k
    by (rule bfs_level [OF wf fr be that])
  have rest_depth: "length (lab x) \<le> length (lab y) \<and> length (lab y) \<le> Suc (length (lab x))"
    if "y \<in> set rest" for y
    using ds that by (simp add: depth_sorted_def)
  have q_depth: "length (lab x) \<le> length (lab y) \<and> length (lab y) \<le> Suc (length (lab x))"
    if "y \<in> set ?q" for y
  proof (cases "y \<in> ?M")
    case True
    then show ?thesis using M [OF True] by simp
  next
    case False
    then have "y \<in> set rest" using that by simp
    then show ?thesis by (rule rest_depth)
  qed
  have sorted_rest: "sorted (map (\<lambda>n. length (lab n)) rest)"
    using ds by (simp add: depth_sorted_def)

  have 1: "queued pats lab h' ?q"
  proof -
    have "distinct (map snd (children (h ! x)))" by (rule wf_children_distinct [OF wf x(1)])
    moreover have "set rest \<inter> ?M = {}" using rest M by blast
    ultimately have "distinct ?q" using x(5) by simp
    moreover have "y < length h' \<and> y \<noteq> 0 \<and> linked pats lab h' y" if "y \<in> set ?q" for y
    proof (cases "y \<in> ?M")
      case True
      then show ?thesis using M [OF True] L [of y] len by simp
    next
      case False
      then have "y \<in> set rest" using that by simp
      then show ?thesis using rest [of y] L [of y] len by simp
    qed
    ultimately show ?thesis unfolding queued_def by blast
  qed
  have 2: "depth_sorted lab ?q"
  proof -
    have Md: "length (lab m) = Suc (length (lab x))"
      if "m \<in> set (map snd (children (h ! x)))" for m
      using M [of m] that by simp
    have sM: "sorted (map (\<lambda>n. length (lab n)) (map snd (children (h ! x))))"
      by (rule sorted_map_const [where c = "Suc (length (lab x))"]) (rule Md)
    have le: "length (lab y) \<le> length (lab m)" if "y \<in> set rest" "m \<in> ?M" for y m
      using rest_depth [OF that(1)] M [OF that(2)] by simp
    have "sorted (map (\<lambda>n. length (lab n)) ?q)"
      unfolding map_append sorted_append using sorted_rest sM le by simp
    moreover have "length (lab y) \<le> Suc (length (lab (hd ?q)))" if y: "y \<in> set ?q" for y
    proof -
      have "?q \<noteq> []" using y by auto
      then have "hd ?q \<in> set ?q" by (rule hd_in_set)
      then have "length (lab x) \<le> length (lab (hd ?q))" using q_depth by blast
      then show ?thesis using q_depth [OF y] by simp
    qed
    ultimately show ?thesis unfolding depth_sorted_def by blast
  qed
  have 3: "frontier pats lab h' ?q"
    unfolding frontier_def
  proof (intro allI impI)
    fix p c y assume p': "p < length h'" and c': "map_of (children (h' ! p)) c = Some y"
    have p: "p < length h" using p' len by simp
    have c: "map_of (children (h ! p)) c = Some y" using c' child_eq [OF p] by simp
    have old: "linked pats lab h y \<longleftrightarrow> p = 0 \<or> (linked pats lab h p \<and> p \<notin> set (x # rest))"
      by (rule frontierD [OF fr p c])
    have yM: "y \<in> ?M \<longleftrightarrow> p = x"
    proof
      assume "y \<in> ?M"
      then obtain c2 where "map_of (children (h ! x)) c2 = Some y" using M_D by blast
      then have "lab y = lab x @ [c2]" using wf_child [OF wf x(1)] by blast
      moreover have "lab y = lab p @ [c]" using wf_child [OF wf p c] by blast
      ultimately have "lab p = lab x" by simp
      then show "p = x" by (rule wf_inj [OF wf p x(1)])
    next
      assume "p = x"
      then have "map_of (children (h ! x)) c = Some y" using c by simp
      then show "y \<in> ?M" by (rule M_I)
    qed
    have pM: "p \<in> ?M \<Longrightarrow> \<not> linked pats lab h p" using M by blast
    show "linked pats lab h' y \<longleftrightarrow> p = 0 \<or> (linked pats lab h' p \<and> p \<notin> set ?q)"
    proof (cases "p = x")
      case True
      have "linked pats lab h' y" using L [of y] yM True by simp
      moreover have "linked pats lab h' p \<and> p \<notin> set ?q"
        using L [of p] True x(3,4) pM by auto
      ultimately show ?thesis by simp
    next
      case False
      have "linked pats lab h' y \<longleftrightarrow> linked pats lab h y" using L [of y] yM False by simp
      moreover have "linked pats lab h' p \<and> p \<notin> set ?q
                      \<longleftrightarrow> linked pats lab h p \<and> p \<notin> set (x # rest)"
        using L [of p] pM False by auto
      ultimately show ?thesis using old by simp
    qed
  qed
  have 4: "below pats lab h' ?q"
    unfolding below_def
  proof (intro allI impI)
    fix y assume y: "y < length h'" "y \<noteq> 0" "?q \<noteq> []"
      and d: "length (lab y) < length (lab (hd ?q))"
    have "hd ?q \<in> set ?q" using y(3) by (rule hd_in_set)
    then have "length (lab (hd ?q)) \<le> Suc (length (lab x))" using q_depth by blast
    then have dy: "length (lab y) \<le> length (lab x)" using d by simp
    have "linked pats lab h y" using lvl [OF _ y(2) dy] y(1) len by simp
    then have a: "linked pats lab h' y" using L [of y] by simp
    have b: "y \<notin> ?M" using M [of y] dy by auto
    have c: "y \<notin> set rest"
    proof
      assume yr: "y \<in> set rest"
      then have ne: "rest \<noteq> []" by auto
      then have hq: "hd ?q = hd rest" by simp
      have "\<forall>z\<in>set rest. length (lab (hd rest)) \<le> length (lab z)"
        using sorted_rest ne by (cases rest) auto
      then have "length (lab (hd rest)) \<le> length (lab y)" using yr by blast
      then show False using d hq by simp
    qed
    show "linked pats lab h' y \<and> y \<notin> set ?q" using a b c by simp
  qed
  show ?thesis unfolding bfs_inv_def using sem' 1 2 3 4 by blast
qed

section \<open>The traversal terminates and links every state\<close>

lemma bfs_loop_Nil: "bfs_loop h [] = Some (Inr h)"
  by (subst bfs_loop.simps) simp

lemma bfs_loop_Cons:
  "link_children h rest x (children (h ! x)) = Some (Inr (h', q'))
   \<Longrightarrow> bfs_loop h (x # rest) = bfs_loop h' q'"
  by (subst bfs_loop.simps) simp

lemma bfs_loop_correct:
  assumes "bfs_inv pats lab h q"
  shows "\<exists>h'. bfs_loop h q = Some (Inr h') \<and> built pats lab h' \<and> length h' = length h"
  using assms
proof (induction "card {n. n < length h \<and> (untouched pats lab h n \<or> n \<in> set q)}"
    arbitrary: h q rule: less_induct)
  case less
  have sem: "sem pats lab h" and fr: "frontier pats lab h q" and be: "below pats lab h q"
    and qu: "queued pats lab h q"
    using less.prems by (simp_all add: bfs_inv_def)
  have wf: "wf h lab" by (rule sem_wf [OF sem])
  show ?case
  proof (cases q)
    case Nil
    have "linked pats lab h n" if "n < length h" "n \<noteq> 0" for n
      using bfs_final [OF wf _ that] fr Nil by simp
    then have "built pats lab h" using sem by (simp add: built_def)
    then show ?thesis using Nil by (simp add: bfs_loop_Nil)
  next
    case (Cons x rest)
    let ?items = "children (h ! x)"
    let ?M = "snd ` set ?items"
    let ?q = "rest @ map snd ?items"
    have x: "x < length h" "x \<noteq> 0" "linked pats lab h x" "x \<notin> set rest"
      using qu Cons by (simp_all add: queued_def)
    have lvl: "linked pats lab h k"
      if "k < length h" "k \<noteq> 0" "length (lab k) \<le> length (lab x)" for k
      using bfs_level [OF wf _ _ that] fr be Cons by simp
    have items: "map_of ?items c = Some m \<and> untouched pats lab h m"
      if cm: "(c, m) \<in> set ?items" for c m
    proof -
      have c: "map_of ?items c = Some m" by (rule wf_children_map_of [OF wf x(1) cm])
      have m: "m < length h" "lab m = lab x @ [c]" using wf_child [OF wf x(1) c] by blast+
      have m0: "m \<noteq> 0" using m(2) wf_root [OF wf] by (cases m) auto
      have "\<not> linked pats lab h m" using frontierD [OF fr x(1) c] x(2) Cons by simp
      then have "untouched pats lab h m" by (rule sem_cases [OF sem m(1) m0])
      then show ?thesis using c by simp
    qed
    have M_un: "m < length h \<and> untouched pats lab h m" if mM: "m \<in> ?M" for m
    proof -
      obtain c where cm: "(c, m) \<in> set ?items" using mM by force
      have "map_of ?items c = Some m" using items [OF cm] by simp
      then have "m < length h" using wf_child [OF wf x(1)] by blast
      then show ?thesis using items [OF cm] by simp
    qed
    from link_children_sem [OF sem x(1,3) lvl items wf_children_distinct [OF wf x(1)], where q = rest]
    obtain h' where
      h': "link_children h rest x ?items = Some (Inr (h', ?q))" "sem pats lab h'"
          "length h' = length h" "\<forall>m\<in>?M. linked pats lab h' m"
          "\<forall>n. n \<notin> ?M \<longrightarrow> h' ! n = h ! n"
      by blast
    have inv': "bfs_inv pats lab h' ?q"
      using bfs_step_inv [OF _ h'(2,3,4,5)] less.prems Cons by simp
    let ?W = "{n. n < length h \<and> (untouched pats lab h n \<or> n \<in> set q)}"
    let ?W' = "{n. n < length h' \<and> (untouched pats lab h' n \<or> n \<in> set ?q)}"
    have xM: "x \<notin> ?M" using M_un [of x] linked_not_untouched [OF x(3)] by blast
    have sub: "?W' \<subseteq> ?W"
    proof
      fix n assume "n \<in> ?W'"
      then have n: "n < length h" "untouched pats lab h' n \<or> n \<in> set ?q"
        using h'(3) by simp_all
      show "n \<in> ?W"
      proof (cases "n \<in> ?M")
        case True
        then show ?thesis using M_un [OF True] by simp
      next
        case False
        then have "h' ! n = h ! n" using h'(5) by blast
        then have "untouched pats lab h' n = untouched pats lab h n" by (rule untouched_cong)
        moreover have "n \<in> set ?q \<Longrightarrow> n \<in> set q" using False Cons by simp
        ultimately show ?thesis using n by blast
      qed
    qed
    have xW: "x \<in> ?W" using x(1) Cons by simp
    have "h' ! x = h ! x" using h'(5) xM by blast
    then have "linked pats lab h' x" using x(3) linked_cong [of h' x h pats lab] h'(3) by simp
    then have "\<not> untouched pats lab h' x" by (rule linked_not_untouched)
    then have xW': "x \<notin> ?W'" using x(4) xM by simp
    have "finite ?W" by simp
    then have "card ?W' < card ?W"
      using sub xW xW' by (intro psubset_card_mono) auto
    from less.hyps [OF this inv'] obtain h'' where
      "bfs_loop h' ?q = Some (Inr h'')" "built pats lab h''" "length h'' = length h'"
      by blast
    then show ?thesis
      using bfs_loop_Cons [OF h'(1)] h'(3) Cons by simp
  qed
qed

section \<open>The children of the root\<close>

lemma wf_child_eq:
  assumes wf: "wf h lab" and wf': "wf h' lab" and len: "length h' = length h"
    and p: "p < length h"
  shows "map_of (children (h' ! p)) c = Some y \<longleftrightarrow> map_of (children (h ! p)) c = Some y"
proof
  assume a: "map_of (children (h' ! p)) c = Some y"
  have p': "p < length h'" using p len by simp
  have "y < length h'" "lab y = lab p @ [c]" using wf_child [OF wf' p' a] by blast+
  then show "map_of (children (h ! p)) c = Some y"
    using wf_child_iff [OF wf p, of y c] len by simp
next
  assume a: "map_of (children (h ! p)) c = Some y"
  have p': "p < length h'" using p len by simp
  have "y < length h" "lab y = lab p @ [c]" using wf_child [OF wf p a] by blast+
  then show "map_of (children (h' ! p)) c = Some y"
    using wf_child_iff [OF wf' p', of y c] len by simp
qed

lemma lits_Nil: "[] \<notin> set pats \<Longrightarrow> lits pats [] = []"
proof -
  assume a: "[] \<notin> set pats"
  have "pats ! p \<noteq> []" if "p < length pats" for p
    using a nth_mem [OF that] by metis
  then show ?thesis unfolding lits_def by (simp add: filter_empty_conv)
qed

lemma trie_inv_sem:
  assumes "trie_inv a lab"
  shows "sem (patterns a) lab (heap a)"
    and "\<forall>n<length (heap a). n \<noteq> 0 \<longrightarrow> untouched (patterns a) lab (heap a) n"
    and "failure_link (heap a ! 0) = None"
proof -
  have wf: "wf (heap a) lab" and ne: "[] \<notin> set (patterns a)"
    and fl: "\<And>n. n < length (heap a) \<Longrightarrow> failure_link (heap a ! n) = None"
    and out: "\<And>n. n < length (heap a) \<Longrightarrow> output (heap a ! n) = lits (patterns a) (lab n)"
    and labs: "\<forall>p\<in>set (patterns a). \<exists>n<length (heap a). lab n = p"
    using assms by (simp_all add: trie_inv_def lits_def)
  show u: "\<forall>n<length (heap a). n \<noteq> 0 \<longrightarrow> untouched (patterns a) lab (heap a) n"
    using fl out by (simp add: untouched_def)
  have "output (heap a ! 0) = []"
    using out [OF wf_nonempty [OF wf]] wf_root [OF wf] lits_Nil [OF ne] by simp
  then show "sem (patterns a) lab (heap a)"
    unfolding sem_def using wf ne labs u by blast
  show "failure_link (heap a ! 0) = None" by (rule fl [OF wf_nonempty [OF wf]])
qed

lemma init_links_sem:
  assumes sem: "sem pats lab h"
    and cs: "\<And>m. m \<in> set cs \<Longrightarrow> m < length h \<and> length (lab m) = 1 \<and> untouched pats lab h m"
    and dist: "distinct cs"
  shows "\<exists>h'. init_links h q cs = (h', q @ cs) \<and> sem pats lab h' \<and> length h' = length h
           \<and> (\<forall>m\<in>set cs. linked pats lab h' m) \<and> (\<forall>n. n \<notin> set cs \<longrightarrow> h' ! n = h ! n)"
  using assms
proof (induction cs arbitrary: h q)
  case Nil
  then show ?case by simp
next
  case (Cons m cs)
  let ?N = "length h"
  have wf: "wf h lab" by (rule sem_wf [OF Cons.prems(1)])
  have m: "m < ?N" "length (lab m) = 1" "untouched pats lab h m"
    using Cons.prems(2) [of m] by simp_all
  have m0: "m \<noteq> 0" using m(2) wf_root [OF wf] by (cases m) auto
  let ?nd = "(h ! m)\<lparr>failure_link := Some root\<rparr>"
  let ?h1 = "h[m := ?nd]"
  have fok: "fail_ok ?N lab m 0"
    unfolding fail_ok_def
  proof (intro conjI allI impI)
    show "0 < ?N" by (rule wf_nonempty [OF wf])
    show "strict_suffix (lab 0) (lab m)"
      using m(2) wf_root [OF wf] by (auto simp: strict_suffix_def)
    show "length (lab k) \<le> length (lab 0)" if "k < ?N" "strict_suffix (lab k) (lab m)" for k
      using strict_suffix_length [OF that(2)] m(2) by simp
  qed
  have labs: "\<forall>p\<in>set pats. \<exists>n<?N. lab n = p" and ne: "[] \<notin> set pats"
    using Cons.prems(1) by (simp_all add: sem_def)
  have "mset (sufs pats (lab m)) = mset (lits pats (lab m))"
    using sufs_split [OF labs fok] sufs_Nil [OF ne] wf_root [OF wf] by simp
  then have lk: "linked pats lab ?h1 m"
    using m(1,3) fok by (simp add: linked_def untouched_def)
  have sem1: "sem pats lab ?h1"
    by (rule sem_update [OF Cons.prems(1) m(1) m0 _ lk]) simp
  have cs1: "k < length ?h1 \<and> length (lab k) = 1 \<and> untouched pats lab ?h1 k"
    if k: "k \<in> set cs" for k
  proof -
    have "k \<noteq> m" using Cons.prems(3) k by auto
    then have "?h1 ! k = h ! k" by simp
    then have "untouched pats lab ?h1 k = untouched pats lab h k" by (rule untouched_cong)
    then show ?thesis using Cons.prems(2) [of k] k by simp
  qed
  have dist1: "distinct cs" using Cons.prems(3) by simp
  from Cons.IH [OF sem1 cs1 dist1, of "q @ [m]"] obtain h' where
    h': "init_links ?h1 (q @ [m]) cs = (h', (q @ [m]) @ cs)" "sem pats lab h'"
        "length h' = length ?h1" "\<forall>k\<in>set cs. linked pats lab h' k"
        "\<forall>n. n \<notin> set cs \<longrightarrow> h' ! n = ?h1 ! n"
    by blast
  have r: "init_links h q (m # cs) = (h', q @ m # cs)" using h'(1) by simp
  have "m \<notin> set cs" using Cons.prems(3) by simp
  then have "h' ! m = ?h1 ! m" using h'(5) by blast
  then have lm: "linked pats lab h' m" using lk linked_cong [of h' m ?h1 pats lab] h'(3) by simp
  have u: "\<forall>n. n \<notin> set (m # cs) \<longrightarrow> h' ! n = h ! n" using h'(5) by simp
  show ?case
    using r h'(2,3,4) lm u by (intro exI [of _ h']) simp
qed

section \<open>Building the automaton\<close>

lemma init_bfs_inv:
  assumes tinv: "trie_inv a lab"
    and sem1: "sem (patterns a) lab h1" and len: "length h1 = length (heap a)"
    and lk: "\<forall>m\<in>set (map snd (children (heap a ! root))). linked (patterns a) lab h1 m"
    and same: "\<forall>n. n \<notin> set (map snd (children (heap a ! root))) \<longrightarrow> h1 ! n = heap a ! n"
  shows "bfs_inv (patterns a) lab h1 (map snd (children (heap a ! root)))"
proof -
  let ?h0 = "heap a" and ?pats = "patterns a"
  let ?cs = "map snd (children (?h0 ! root))"
  have wf0: "wf ?h0 lab" using tinv by (simp add: trie_inv_def)
  have wf1: "wf h1 lab" by (rule sem_wf [OF sem1])
  have r: "root < length ?h0" by (rule wf_nonempty [OF wf0])
  have fl0: "failure_link (?h0 ! n) = None" if "n < length ?h0" for n
    using tinv that by (simp add: trie_inv_def)
  have C_D: "\<exists>c. map_of (children (?h0 ! root)) c = Some m" if mc: "m \<in> set ?cs" for m
  proof -
    obtain c where "(c, m) \<in> set (children (?h0 ! root))" using mc by force
    then show ?thesis using wf_children_map_of [OF wf0 r] by blast
  qed
  have C_I: "m \<in> set ?cs" if "map_of (children (?h0 ! root)) c = Some m" for m c
  proof -
    have "(c, m) \<in> set (children (?h0 ! root))" using that by (rule map_of_SomeD)
    then show ?thesis by force
  qed
  have C: "m < length ?h0 \<and> m \<noteq> 0 \<and> length (lab m) = 1" if mc: "m \<in> set ?cs" for m
  proof -
    obtain c where c: "map_of (children (?h0 ! root)) c = Some m" using C_D [OF mc] by blast
    have m: "m < length ?h0" "lab m = lab root @ [c]" using wf_child [OF wf0 r c] by blast+
    then have l: "length (lab m) = 1" using wf_root [OF wf0] by simp
    then have "m \<noteq> 0" using wf_root [OF wf0] by (cases m) auto
    then show ?thesis using m(1) l by simp
  qed
  have L: "linked ?pats lab h1 n \<longleftrightarrow> n \<in> set ?cs" if n: "n < length ?h0" for n
  proof (cases "n \<in> set ?cs")
    case True
    then show ?thesis using lk by blast
  next
    case False
    then have "h1 ! n = ?h0 ! n" using same by blast
    then have "failure_link (h1 ! n) = None" using fl0 [OF n] by simp
    then have "\<not> linked ?pats lab h1 n" by (simp add: linked_def)
    then show ?thesis using False by simp
  qed
  have 1: "queued ?pats lab h1 ?cs"
    unfolding queued_def
  proof (intro conjI ballI)
    show "distinct ?cs" by (rule wf_children_distinct [OF wf0 r])
    show "x < length h1" if "x \<in> set ?cs" for x using C [OF that] len by simp
    show "x \<noteq> root" if "x \<in> set ?cs" for x using C [OF that] by simp
    show "linked ?pats lab h1 x" if "x \<in> set ?cs" for x using lk that by blast
  qed
  have 2: "depth_sorted lab ?cs"
    unfolding depth_sorted_def
  proof (intro conjI ballI)
    show "sorted (map (\<lambda>n. length (lab n)) ?cs)"
      by (rule sorted_map_const [where c = 1]) (use C in blast)
    show "length (lab x) \<le> Suc (length (lab (hd ?cs)))" if "x \<in> set ?cs" for x
      using C [OF that] by simp
  qed
  have 3: "frontier ?pats lab h1 ?cs"
    unfolding frontier_def
  proof (intro allI impI)
    fix p c y assume p1: "p < length h1" and c1: "map_of (children (h1 ! p)) c = Some y"
    have p: "p < length ?h0" using p1 len by simp
    have c: "map_of (children (?h0 ! p)) c = Some y"
      using c1 wf_child_eq [OF wf0 wf1 len p] by simp
    have y: "y < length ?h0" "lab y = lab p @ [c]" using wf_child [OF wf0 p c] by blast+
    have yC: "y \<in> set ?cs \<longleftrightarrow> p = 0"
    proof
      assume "y \<in> set ?cs"
      then have "length (lab y) = 1" using C by blast
      then have "lab p = []" using y(2) by simp
      then show "p = 0" using wf_root_iff [OF wf0 p] by simp
    next
      assume "p = 0"
      then show "y \<in> set ?cs" using c C_I by blast
    qed
    show "linked ?pats lab h1 y \<longleftrightarrow> p = root \<or> (linked ?pats lab h1 p \<and> p \<notin> set ?cs)"
      using L [OF y(1)] L [OF p] yC by blast
  qed
  have 4: "below ?pats lab h1 ?cs"
    unfolding below_def
  proof (intro allI impI)
    fix y assume y: "y < length h1" "y \<noteq> root" "?cs \<noteq> []"
      and d: "length (lab y) < length (lab (hd ?cs))"
    have "hd ?cs \<in> set ?cs" using y(3) by (rule hd_in_set)
    then have "length (lab (hd ?cs)) = 1" using C by blast
    then have "lab y = []" using d by simp
    then have "y = 0" using wf_root_iff [OF wf0, of y] y(1) len by simp
    then show "linked ?pats lab h1 y \<and> y \<notin> set ?cs" using y(2) by simp
  qed
  show ?thesis unfolding bfs_inv_def using sem1 1 2 3 4 by blast
qed

lemma build_failure_links_correct:
  assumes tinv: "trie_inv a lab"
  shows "\<exists>h'. build_failure_links a = Some (Inr (a\<lparr>heap := h'\<rparr>))
           \<and> built (patterns a) lab h' \<and> length h' = length (heap a)"
proof -
  let ?h0 = "heap a" and ?pats = "patterns a"
  let ?cs = "map snd (children (?h0 ! root))"
  have wf0: "wf ?h0 lab" using tinv by (simp add: trie_inv_def)
  have r: "root < length ?h0" by (rule wf_nonempty [OF wf0])
  have sem0: "sem ?pats lab ?h0" by (rule trie_inv_sem(1) [OF tinv])
  have cs: "m < length ?h0 \<and> length (lab m) = 1 \<and> untouched ?pats lab ?h0 m"
    if mc: "m \<in> set ?cs" for m
  proof -
    obtain c where "(c, m) \<in> set (children (?h0 ! root))" using mc by force
    then have c: "map_of (children (?h0 ! root)) c = Some m"
      using wf_children_map_of [OF wf0 r] by blast
    have m: "m < length ?h0" "lab m = lab root @ [c]" using wf_child [OF wf0 r c] by blast+
    then have l: "length (lab m) = 1" using wf_root [OF wf0] by simp
    then have "m \<noteq> 0" using wf_root [OF wf0] by (cases m) auto
    then have "untouched ?pats lab ?h0 m" using trie_inv_sem(2) [OF tinv] m(1) by blast
    then show ?thesis using m(1) l by simp
  qed
  from init_links_sem [OF sem0 cs wf_children_distinct [OF wf0 r], where q = "[]"]
  obtain h1 where
    h1: "init_links ?h0 [] ?cs = (h1, ?cs)" "sem ?pats lab h1" "length h1 = length ?h0"
        "\<forall>m\<in>set ?cs. linked ?pats lab h1 m" "\<forall>n. n \<notin> set ?cs \<longrightarrow> h1 ! n = ?h0 ! n"
    by auto
  have "bfs_inv ?pats lab h1 ?cs" by (rule init_bfs_inv [OF tinv h1(2,3,4,5)])
  from bfs_loop_correct [OF this] obtain h' where
    h': "bfs_loop h1 ?cs = Some (Inr h')" "built ?pats lab h'" "length h' = length h1"
    by blast
  have "build_failure_links a = Some (Inr (a\<lparr>heap := h'\<rparr>))"
    using h1(1) h'(1) by (simp add: build_failure_links_def)
  then show ?thesis using h'(2,3) h1(3) by (intro exI [of _ h']) simp
qed

lemma build_correct:
  "\<exists>a lab. build ps = Some (Inr a) \<and> built (patterns a) lab (heap a)
     \<and> patterns a = filter (\<lambda>p. p \<noteq> []) ps"
proof -
  let ?a = "add_patterns new_automaton ps"
  obtain lab where tinv: "trie_inv ?a lab" using add_patterns_inv [OF trie_inv_new] by blast
  from build_failure_links_correct [OF tinv] obtain h' where
    h': "build_failure_links ?a = Some (Inr (?a\<lparr>heap := h'\<rparr>))" "built (patterns ?a) lab h'"
    by blast
  have "patterns ?a = filter (\<lambda>p. p \<noteq> []) ps"
    by (simp add: add_patterns_patterns new_automaton_def)
  then show ?thesis using h' by (intro exI [of _ "?a\<lparr>heap := h'\<rparr>"] exI [of _ lab]) (simp add: build_def)
qed

section \<open>Scanning\<close>

lemma search_fallback_frame_result:
  "search_fallback a c current = Some r
   \<Longrightarrow> (case r of Inl e \<Rightarrow> True | Inr (a', n) \<Rightarrow> a' = a)"
proof (rule search_fallback.raw_induct
    [where P = "\<lambda>a c current r. case r of Inl e \<Rightarrow> True | Inr (a', n) \<Rightarrow> a' = a"])
  fix sf a c current r
  assume ih: "\<And>a c current r. sf a c current = Some r
                \<Longrightarrow> (case r of Inl e \<Rightarrow> True | Inr (a', n) \<Rightarrow> a' = a)"
    and eq: "(case current of
                None \<Rightarrow> Some (Inl AttributeError)
              | Some n \<Rightarrow>
                  if n \<noteq> root \<and> map_of (children (heap a ! n)) c = None
                  then sf a c (failure_link (heap a ! n))
                  else Some (Inr (a, n))) = Some r"
  show "case r of Inl e \<Rightarrow> True | Inr (a', n) \<Rightarrow> a' = a"
  proof (cases current)
    case None
    then show ?thesis using eq by auto
  next
    case (Some n)
    show ?thesis
    proof (cases "n \<noteq> root \<and> map_of (children (heap a ! n)) c = None")
      case True
      then have "sf a c (failure_link (heap a ! n)) = Some r" using eq Some by simp
      then show ?thesis by (rule ih)
    next
      case False
      then have "r = Inr (a, n)" using eq Some by auto
      then show ?thesis by simp
    qed
  qed
qed

lemma search_fallback_frame:
  "search_fallback a c current = Some (Inr (a', n)) \<Longrightarrow> a' = a"
  using search_fallback_frame_result [of a c current "Inr (a', n)"] by simp

lemma search_fallback_of_fallback_result:
  "fallback h c current = Some r
   \<Longrightarrow> (\<forall>a. heap a = h \<longrightarrow> search_fallback a c current = Some (map_sum id (Pair a) r))"
proof (rule fallback.raw_induct
    [where P = "\<lambda>h c current r.
       \<forall>a. heap a = h \<longrightarrow> search_fallback a c current = Some (map_sum id (Pair a) r)"])
  fix fb h c current r
  assume ih: "\<And>h c current r. fb h c current = Some r
                \<Longrightarrow> \<forall>a. heap a = h \<longrightarrow> search_fallback a c current = Some (map_sum id (Pair a) r)"
    and eq: "(case current of
                None \<Rightarrow> Some (Inl AttributeError)
              | Some n \<Rightarrow>
                  if n \<noteq> root \<and> map_of (children (h ! n)) c = None
                  then fb h c (failure_link (h ! n))
                  else Some (Inr n)) = Some r"
  show "\<forall>a. heap a = h \<longrightarrow> search_fallback a c current = Some (map_sum id (Pair a) r)"
  proof (intro allI impI)
    fix a :: automaton assume h: "heap a = h"
    show "search_fallback a c current = Some (map_sum id (Pair a) r)"
    proof (cases current)
      case None
      then show ?thesis using eq by (subst search_fallback.simps) auto
    next
      case (Some n)
      show ?thesis
      proof (cases "n \<noteq> root \<and> map_of (children (h ! n)) c = None")
        case True
        then have "fb h c (failure_link (h ! n)) = Some r" using eq Some by simp
        then have "search_fallback a c (failure_link (h ! n)) = Some (map_sum id (Pair a) r)"
          using ih h by blast
        then show ?thesis using True Some h by (subst search_fallback.simps) simp
      next
        case False
        then have "r = Inr n" using eq Some by auto
        then show ?thesis using False Some h by (subst search_fallback.simps) auto
      qed
    qed
  qed
qed

lemma search_fallback_of_fallback:
  "fallback (heap a) c current = Some (Inr y) \<Longrightarrow> search_fallback a c current = Some (Inr (a, y))"
  using search_fallback_of_fallback_result [of "heap a" c current "Inr y"] by simp

lemma emit_frame:
  "emit a i ms ids = Some (Inr (a', ms')) \<Longrightarrow> a' = a"
  by (induction ids arbitrary: ms) (auto simp: Let_def split: if_splits)

lemma search_loop_frame:
  "search_loop a current i ms T = Some (Inr (a', ms')) \<Longrightarrow> a' = a"
proof (induction T arbitrary: a current i ms)
  case Nil
  then show ?case by simp
next
  case (Cons c cs)
  from Cons.prems obtain a1 n where
    f: "search_fallback a c (Some current) = Some (Inr (a1, n))"
    by (auto split: option.splits sum.splits)
  define nxt where "nxt = (case map_of (children (heap a1 ! n)) c of Some t \<Rightarrow> t | None \<Rightarrow> n)"
  from Cons.prems f obtain a2 ms2 where
    e: "emit a1 i ms (output (heap a1 ! nxt)) = Some (Inr (a2, ms2))"
    by (auto simp: Let_def nxt_def split: option.splits sum.splits)
  have r: "search_loop a2 nxt (Suc i) ms2 cs = Some (Inr (a', ms'))"
    using Cons.prems f e by (simp add: Let_def nxt_def)
  have "a' = a2" by (rule Cons.IH [OF r])
  also have "a2 = a1" by (rule emit_frame [OF e])
  also have "a1 = a" by (rule search_fallback_frame [OF f])
  finally show ?case .
qed

lemma search_frame:
  "search a T = Some (Inr (a', ms)) \<Longrightarrow> a' = a"
  unfolding search_def by (rule search_loop_frame)

lemma emit_ok:
  "\<forall>p\<in>set ids. p < length (patterns a) \<Longrightarrow>
   emit a i ms ids
     = Some (Inr (a, ms @ map (\<lambda>p. (int i - int (length (patterns a ! p)) + 1, patterns a ! p)) ids))"
  by (induction ids arbitrary: ms) (simp_all add: Let_def)

lemma ends_sufs:
  "image_mset (\<lambda>p. (int (length w) - int (length (pats ! p)), pats ! p)) (mset (sufs pats w))
     = ends pats w"
proof -
  have "mset pats = image_mset (nth pats) (mset [0..<length pats])"
    by (metis map_nth mset_map)
  then have "filter_mset (\<lambda>q. suffix q w) (mset pats)
      = image_mset (nth pats) (filter_mset (\<lambda>p. suffix (pats ! p) w) (mset [0..<length pats]))"
    by (simp add: filter_mset_image_mset)
  then show ?thesis
    unfolding ends_def sufs_def by (simp add: multiset.map_comp comp_def)
qed

lemma built_out:
  assumes b: "built pats lab h" and n: "n < length h"
  shows "mset (output (h ! n)) = mset (sufs pats (lab n))"
proof (cases "n = 0")
  case True
  have sem: "sem pats lab h" using b by (simp add: built_def)
  then have "output (h ! 0) = []" "[] \<notin> set pats" by (simp_all add: sem_def)
  then show ?thesis using True wf_root [OF sem_wf [OF sem]] by (simp add: sufs_Nil)
next
  case False
  then have "linked pats lab h n" using b n by (simp add: built_def)
  then show ?thesis by (simp add: linked_def)
qed

lemma built_links:
  assumes b: "built pats lab h" and n: "n < length h" "n \<noteq> 0"
  shows "\<exists>f. failure_link (h ! n) = Some f \<and> fail_ok (length h) lab n f"
  using assms by (simp add: built_def linked_def)

lemma sufs_longest:
  assumes labs: "\<forall>p\<in>set pats. \<exists>n<N. lab n = p" and l: "longest N lab w x"
  shows "sufs pats (lab x) = sufs pats w"
  unfolding sufs_def
proof (rule filter_cong [OF refl])
  fix p assume "p \<in> set [0..<length pats]"
  then have "pats ! p \<in> set pats" by simp
  then obtain k where k: "k < N" "lab k = pats ! p" using labs by blast
  have xs: "suffix (lab x) w"
    and xm: "\<And>k. k < N \<Longrightarrow> suffix (lab k) w \<Longrightarrow> length (lab k) \<le> length (lab x)"
    using l by (auto simp: longest_def)
  show "suffix (pats ! p) (lab x) \<longleftrightarrow> suffix (pats ! p) w"
  proof
    assume "suffix (pats ! p) (lab x)"
    then show "suffix (pats ! p) w" using xs by (rule suffix_order.trans)
  next
    assume a: "suffix (pats ! p) w"
    then have "length (lab k) \<le> length (lab x)" using xm [OF k(1)] k(2) by simp
    then show "suffix (pats ! p) (lab x)"
      using a xs k(2) by (metis suffix_length_suffix)
  qed
qed

lemma search_loop_correct:
  assumes b: "built (patterns a) lab (heap a)"
    and cur: "longest (length (heap a)) lab pre current" and i: "i = length pre"
  shows "\<exists>ms'. search_loop a current i ms T = Some (Inr (a, ms'))
           \<and> mset ms' = mset ms + matches_from (patterns a) pre T"
  using cur i
proof (induction T arbitrary: current i ms pre)
  case Nil
  then show ?case by simp
next
  case (Cons c cs)
  let ?h = "heap a" and ?pats = "patterns a"
  let ?N = "length ?h"
  have sem: "sem ?pats lab ?h" using b by (simp add: built_def)
  have wf: "wf ?h lab" by (rule sem_wf [OF sem])
  have labs: "\<forall>p\<in>set ?pats. \<exists>n<?N. lab n = p" using sem by (simp add: sem_def)
  have cl: "current < ?N" using Cons.prems(1) by (simp add: longest_def)
  have links: "\<exists>f. failure_link (?h ! k) = Some f \<and> fail_ok ?N lab k f"
    if "k < ?N" "k \<noteq> 0" "length (lab k) \<le> length (lab current)" for k
    by (rule built_links [OF b that(1,2)])
  from fallback_correct [OF wf links cl order_refl, of c] obtain y where
    y: "y < ?N" "fallback ?h c (Some current) = Some (Inr y)" "suffix (lab y) (lab current)"
       "y = 0 \<or> map_of (children (?h ! y)) c \<noteq> None"
       "\<And>k. k < ?N \<Longrightarrow> suffix (lab k) (lab current) \<Longrightarrow> map_of (children (?h ! k)) c \<noteq> None
          \<Longrightarrow> length (lab k) \<le> length (lab y)"
    by force
  define nxt where "nxt = (case map_of (children (?h ! y)) c of Some t \<Rightarrow> t | None \<Rightarrow> y)"
  have nxt0: "nxt = (case map_of (children (?h ! y)) c of Some t \<Rightarrow> t | None \<Rightarrow> 0)"
    unfolding nxt_def using y(4) by (auto split: option.splits)
  have ln: "longest ?N lab (pre @ [c]) nxt"
    unfolding nxt0 by (rule next_state_correct [OF wf Cons.prems(1) y(1,3,4,5)])
  then have nl: "nxt < ?N" by (simp add: longest_def)
  have out: "mset (output (?h ! nxt)) = mset (sufs ?pats (pre @ [c]))"
    using built_out [OF b nl] sufs_longest [OF labs ln] by simp
  then have "set (output (?h ! nxt)) = set (sufs ?pats (pre @ [c]))" by (rule mset_eq_setD)
  then have valid: "\<forall>p\<in>set (output (?h ! nxt)). p < length ?pats" by (simp add: sufs_def)
  let ?em = "map (\<lambda>p. (int i - int (length (?pats ! p)) + 1, ?pats ! p)) (output (?h ! nxt))"
  have em: "emit a i ms (output (?h ! nxt)) = Some (Inr (a, ms @ ?em))"
    by (rule emit_ok [OF valid])
  have sf: "search_fallback a c (Some current) = Some (Inr (a, y))"
    by (rule search_fallback_of_fallback [OF y(2)])
  have "mset ?em = image_mset (\<lambda>p. (int i - int (length (?pats ! p)) + 1, ?pats ! p))
                     (mset (sufs ?pats (pre @ [c])))"
    using out by (metis mset_map)
  also have "\<dots> = image_mset (\<lambda>p. (int (length (pre @ [c])) - int (length (?pats ! p)), ?pats ! p))
                     (mset (sufs ?pats (pre @ [c])))"
    using Cons.prems(2) by (intro image_mset_cong) simp
  also have "\<dots> = ends ?pats (pre @ [c])" by (rule ends_sufs)
  finally have mem: "mset ?em = ends ?pats (pre @ [c])" .
  have i': "Suc i = length (pre @ [c])" using Cons.prems(2) by simp
  from Cons.IH [OF ln i', of "ms @ ?em"] obtain ms' where
    ms': "search_loop a nxt (Suc i) (ms @ ?em) cs = Some (Inr (a, ms'))"
         "mset ms' = mset (ms @ ?em) + matches_from ?pats (pre @ [c]) cs"
    by blast
  have "search_loop a current i ms (c # cs) = Some (Inr (a, ms'))"
    using sf em ms'(1) by (simp add: nxt_def Let_def)
  moreover have "mset ms' = mset ms + matches_from ?pats pre (c # cs)"
    using ms'(2) mem by simp
  ultimately show ?case by blast
qed

lemma search_correct:
  assumes b: "built (patterns a) lab (heap a)"
  shows "\<exists>ms. search a T = Some (Inr (a, ms)) \<and> mset ms = matches_from (patterns a) [] T"
proof -
  have wf: "wf (heap a) lab" using b by (simp add: built_def sem_def)
  have "longest (length (heap a)) lab [] root"
    using wf_nonempty [OF wf] wf_root [OF wf] by (simp add: longest_def)
  from search_loop_correct [OF b this, of 0 "[]" T] obtain ms where
    "search_loop a root 0 [] T = Some (Inr (a, ms))" "mset ms = matches_from (patterns a) [] T"
    by auto
  then show ?thesis by (simp add: search_def)
qed

section \<open>Occurrences and the naive scan\<close>

lemma ends_mset: "mset ps = mset qs \<Longrightarrow> ends ps w = ends qs w"
  by (simp add: ends_def)

lemma matches_from_mset:
  assumes "mset ps = mset qs"
  shows "matches_from ps pre T = matches_from qs pre T"
proof (induction T arbitrary: pre)
  case Nil
  show ?case by simp
next
  case (Cons c cs)
  show ?case unfolding matches_from.simps Cons.IH ends_mset [OF assms] by (rule refl)
qed

lemma ends_Cons: "ends (p # ps) w = ends [p] w + ends ps w"
  by (simp add: ends_def)

lemma ends_Nil: "ends [] w = {#}"
  by (simp add: ends_def)

lemma matches_from_Nil: "matches_from [] pre T = {#}"
  by (induction T arbitrary: pre) (simp_all add: ends_Nil)

lemma matches_from_Cons:
  "matches_from (p # ps) pre T = matches_from [p] pre T + matches_from ps pre T"
proof (induction T arbitrary: pre)
  case Nil
  then show ?case by simp
next
  case (Cons c cs)
  show ?case
    unfolding matches_from.simps Cons.IH ends_Cons [of p ps] by (simp add: ac_simps)
qed

lemma matches_from_snoc:
  "matches_from pats pre (T @ [c]) = matches_from pats pre T + ends pats (pre @ T @ [c])"
  by (induction T arbitrary: pre) simp_all

lemma ends_single:
  "ends [P] w = (if suffix P w then {#(int (length w) - int (length P), P)#} else {#})"
  by (simp add: ends_def)

lemma naive_scan_snoc:
  assumes "P \<noteq> []"
  shows "naive_scan P (T @ [c])
           = naive_scan P T @ (if suffix P (T @ [c]) then [Suc (length T) - length P] else [])"
proof (cases "length P \<le> Suc (length T)")
  case False
  then have "\<not> suffix P (T @ [c])" using suffix_length_le [of P "T @ [c]"] by auto
  then show ?thesis using False by (simp add: naive_scan_def)
next
  case True
  let ?n = "Suc (length T) - length P"
  have r: "Suc (length (T @ [c])) - length P = Suc ?n" using True by simp
  have old: "take (length P) (drop j (T @ [c])) = take (length P) (drop j T)" if "j < ?n" for j
    using that by simp
  have "filter (\<lambda>j. take (length P) (drop j (T @ [c])) = P) [0..<?n]
          = filter (\<lambda>j. take (length P) (drop j T) = P) [0..<?n]"
    by (rule filter_cong [OF refl]) (simp add: old)
  moreover have "take (length P) (drop ?n (T @ [c])) = P \<longleftrightarrow> suffix P (T @ [c])"
  proof
    assume "take (length P) (drop ?n (T @ [c])) = P"
    then have "drop ?n (T @ [c]) = P" using True by simp
    then show "suffix P (T @ [c])" by (metis suffix_drop)
  next
    assume "suffix P (T @ [c])"
    then obtain zs where zs: "T @ [c] = zs @ P" by (auto simp: suffix_def)
    then have "length zs = ?n" by (metis add_diff_cancel_right' length_append length_append_singleton)
    then have "drop ?n (T @ [c]) = P" using zs by simp
    then show "take (length P) (drop ?n (T @ [c])) = P" by simp
  qed
  ultimately show ?thesis unfolding naive_scan_def r by simp
qed

lemma naive_scan_Nil: "P \<noteq> [] \<Longrightarrow> naive_scan P [] = []"
  by (cases P) (simp_all add: naive_scan_def)

lemma single_naive:
  assumes "P \<noteq> []"
  shows "matches_from [P] [] T = mset (map (\<lambda>j. (int j, P)) (naive_scan P T))"
proof (induction T rule: rev_induct)
  case Nil
  then show ?case using assms by (simp add: naive_scan_Nil)
next
  case (snoc c T)
  have "suffix P (T @ [c]) \<Longrightarrow> length P \<le> Suc (length T)"
    using suffix_length_le [of P "T @ [c]"] by simp
  then have "ends [P] (T @ [c])
      = mset (map (\<lambda>j. (int j, P)) (if suffix P (T @ [c]) then [Suc (length T) - length P] else []))"
    by (auto simp: ends_single of_nat_diff)
  then show ?case
    using snoc.IH by (simp add: matches_from_snoc naive_scan_snoc [OF assms] del: of_nat_diff)
qed

lemma matches_from_sum:
  "matches_from ps pre T = (\<Sum>p\<in>#mset ps. matches_from [p] pre T)"
proof (induction ps)
  case Nil
  then show ?case by (simp add: matches_from_Nil)
next
  case (Cons p ps)
  then show ?case using matches_from_Cons [of p ps pre T] by simp
qed

lemma build_and_search_correct:
  "\<exists>ms. build_and_search ps T = Some (Inr ms)
     \<and> mset ms = matches_from (filter (\<lambda>p. p \<noteq> []) ps) [] T"
proof -
  obtain a lab where a: "build ps = Some (Inr a)" "built (patterns a) lab (heap a)"
    "patterns a = filter (\<lambda>p. p \<noteq> []) ps"
    using build_correct [of ps] by blast
  obtain ms where "search a T = Some (Inr (a, ms))" "mset ms = matches_from (patterns a) [] T"
    using search_correct [OF a(2), of T] by blast
  then show ?thesis using a(1,3) by (simp add: build_and_search_def)
qed

section \<open>Concrete scans\<close>

text \<open>
  C4, as the code behaves: the patterns \<open>he\<close>, \<open>she\<close>, \<open>hers\<close> over the text
  \<open>ushers\<close> give the matches \<open>(1, she)\<close>, \<open>(2, he)\<close>, \<open>(2, hers)\<close>, in this order,
  with 0-based start offsets (\<open>she\<close> starts at index 1 of \<open>ushers\<close>, \<open>he\<close> and \<open>hers\<close>
  at index 2).
\<close>

theorem ushers_matches:
  "build_and_search [''he'', ''she'', ''hers''] ''ushers''
     = Some (Inr [(1, ''she''), (2, ''he''), (2, ''hers'')])"
  by code_simp

text \<open>
  C4, as the specification writes it: the offsets \<open>2\<close>, \<open>3\<close>, \<open>3\<close> are not what the scan
  returns.
\<close>

theorem ushers_matches_not_as_claimed:
  "build_and_search [''he'', ''she'', ''hers''] ''ushers''
     \<noteq> Some (Inr [(2, ''she''), (3, ''he''), (3, ''hers'')])"
  by code_simp

section \<open>Empty patterns\<close>

text \<open>
  C7: \<open>add_pattern\<close> on the empty pattern returns the automaton unchanged: the store of
  nodes and the pattern list are the ones it was given.
\<close>

theorem add_pattern_empty:
  "add_pattern a [] = a \<and> heap (add_pattern a []) = heap a
     \<and> patterns (add_pattern a []) = patterns a"
  by (simp add: add_pattern_def)



section \<open>Single patterns and superposition\<close>

lemma match_multiset_eq:
  "match_multiset ps T = matches_from (filter (\<lambda>p. p \<noteq> []) ps) [] T"
proof -
  obtain ms where "build_and_search ps T = Some (Inr ms)"
    "mset ms = matches_from (filter (\<lambda>p. p \<noteq> []) ps) [] T"
    using build_and_search_correct [of ps T] by blast
  then show ?thesis by (simp add: match_multiset_def)
qed

lemma match_multiset_sum:
  "match_multiset ps T = (\<Sum>p\<in>#mset ps. match_multiset [p] T)"
proof -
  have "matches_from (filter (\<lambda>p. p \<noteq> []) ps) [] T
          = (\<Sum>p\<in>#mset ps. matches_from (filter (\<lambda>p. p \<noteq> []) [p]) [] T)"
  proof (induction ps)
    case Nil
    then show ?case by (simp add: matches_from_Nil)
  next
    case (Cons p ps)
    show ?case
    proof (cases "p = []")
      case True
      then show ?thesis using Cons by (simp add: matches_from_Nil)
    next
      case False
      then show ?thesis
        using Cons matches_from_Cons [of p "filter (\<lambda>p. p \<noteq> []) ps" "[]" T] by simp
    qed
  qed
  then show ?thesis by (simp only: match_multiset_eq)
qed

text \<open>
  C1: for a single non-empty pattern \<open>P\<close> and any text \<open>T\<close>, building on \<open>[P]\<close> and
  scanning \<open>T\<close> returns, and the matches it returns are the pairs \<open>(j, P)\<close> for exactly
  the offsets \<open>j\<close> of the naive sliding-window scan, each once; in particular the start
  offsets returned are the offsets of the naive scan.
\<close>

theorem single_pattern_refines_naive_scan:
  assumes "P \<noteq> []"
  shows "\<exists>ms. build_and_search [P] T = Some (Inr ms)
           \<and> mset ms = mset (map (\<lambda>j. (int j, P)) (naive_scan P T))
           \<and> set (map fst ms) = int ` set (naive_scan P T)"
proof -
  obtain ms where ms: "build_and_search [P] T = Some (Inr ms)"
    "mset ms = matches_from (filter (\<lambda>p. p \<noteq> []) [P]) [] T"
    using build_and_search_correct [of "[P]" T] by blast
  then have m: "mset ms = mset (map (\<lambda>j. (int j, P)) (naive_scan P T))"
    using assms single_naive [OF assms, of T] by simp
  then have "set ms = set (map (\<lambda>j. (int j, P)) (naive_scan P T))" by (rule mset_eq_setD)
  then have "fst ` set ms = int ` set (naive_scan P T)" by (simp add: image_image)
  then show ?thesis using ms(1) m by simp
qed

theorem single_pattern_refines_naive_scan_witness:
  "\<exists>ms. build_and_search [''ab''] ''cabab'' = Some (Inr ms)
     \<and> mset ms = {#(1, ''ab''), (3, ''ab'')#}"
proof -
  have n: "naive_scan ''ab'' ''cabab'' = [1, 3]" by code_simp
  have ne: "''ab'' \<noteq> []" by simp
  show ?thesis
    using single_pattern_refines_naive_scan [OF ne, of "''cabab''"] unfolding n by auto
qed

text \<open>
  C2: for any list of patterns and any text, the scan on the automaton built from all the
  patterns returns, so does the scan for each pattern alone, the multiset of matches of
  the joint scan is the sum of the multisets of the single-pattern scans, and it is the
  same for every order of insertion of the patterns.
\<close>

theorem multi_pattern_superposition:
  "(\<exists>ms. build_and_search ps T = Some (Inr ms))
   \<and> (\<forall>p\<in>set ps. \<exists>ms. build_and_search [p] T = Some (Inr ms))
   \<and> match_multiset ps T = (\<Sum>p\<in>#mset ps. match_multiset [p] T)
   \<and> (\<forall>qs. mset qs = mset ps \<longrightarrow> match_multiset qs T = match_multiset ps T)"
proof (intro conjI allI impI ballI)
  show "\<exists>ms. build_and_search ps T = Some (Inr ms)"
    using build_and_search_correct [of ps T] by blast
  show "\<exists>ms. build_and_search [p] T = Some (Inr ms)" for p
    using build_and_search_correct [of "[p]" T] by blast
  show "match_multiset ps T = (\<Sum>p\<in>#mset ps. match_multiset [p] T)"
    by (rule match_multiset_sum)
  show "match_multiset qs T = match_multiset ps T" if "mset qs = mset ps" for qs
  proof -
    have "mset (filter (\<lambda>p. p \<noteq> []) qs) = mset (filter (\<lambda>p. p \<noteq> []) ps)"
      using that by (metis mset_filter)
    then show ?thesis unfolding match_multiset_eq by (rule matches_from_mset)
  qed
qed

theorem multi_pattern_superposition_witness:
  "match_multiset [''hers'', ''he'', ''she''] ''ushers''
     = match_multiset [''he'', ''she'', ''hers''] ''ushers''
   \<and> match_multiset [''he'', ''she'', ''hers''] ''ushers''
     = match_multiset [''he''] ''ushers'' + match_multiset [''she''] ''ushers''
       + match_multiset [''hers''] ''ushers''"
proof -
  have "mset [''hers'', ''he'', ''she''] = mset [''he'', ''she'', ''hers'']" by simp
  then show ?thesis
    using multi_pattern_superposition [of "[''he'', ''she'', ''hers'']" "''ushers''"]
    by (simp add: ac_simps)
qed

section \<open>Failure links\<close>

lemma built_wf: "built pats lab h \<Longrightarrow> wf h lab"
  by (simp add: built_def sem_def)

lemma built_failure_link:
  assumes b: "built pats lab h" and n: "n < length h" "n \<noteq> 0"
  shows "\<exists>f. failure_link (h ! n) = Some f \<and> f < length h
           \<and> steps h root (lab n) = Some n \<and> steps h root (lab f) = Some f
           \<and> strict_suffix (lab f) (lab n)
           \<and> (\<forall>v. strict_suffix v (lab n) \<longrightarrow> steps h root v \<noteq> None
                 \<longrightarrow> length v \<le> length (lab f))"
proof -
  have wf: "wf h lab" by (rule built_wf [OF b])
  obtain f where f: "failure_link (h ! n) = Some f" "fail_ok (length h) lab n f"
    using built_links [OF b n] by blast
  have fl: "f < length h" and fs: "strict_suffix (lab f) (lab n)"
    and fm: "\<And>k. k < length h \<Longrightarrow> strict_suffix (lab k) (lab n) \<Longrightarrow> length (lab k) \<le> length (lab f)"
    using f(2) by (auto simp: fail_ok_def)
  have sn: "steps h root (lab n) = Some n" by (rule lab_steps [OF wf n(1) refl])
  have sf: "steps h root (lab f) = Some f" by (rule lab_steps [OF wf fl refl])
  have mx: "length v \<le> length (lab f)"
    if v: "strict_suffix v (lab n)" "steps h root v \<noteq> None" for v
  proof -
    obtain k where "steps h root v = Some k" using v(2) by blast
    then have "k < length h" "lab k = v" using steps_iff [OF wf, of v k] by simp_all
    then show ?thesis using fm [of k] v(1) by simp
  qed
  show ?thesis using f(1) fl sn sf fs mx by blast
qed

text \<open>
  C3: building always returns, and in the automaton it returns every non-root state
  \<open>n\<close> has exactly one path-label \<open>w\<close>, its failure link is a state \<open>f\<close> whose path-label
  \<open>u\<close> is a proper suffix of \<open>w\<close>, and no proper suffix of \<open>w\<close> that is the path-label of a
  state of the trie is longer than \<open>u\<close>.
\<close>

theorem failure_link_longest_proper_suffix:
  "\<exists>a. build ps = Some (Inr a)
     \<and> (\<forall>n<length (heap a). n \<noteq> root \<longrightarrow>
          (\<exists>w u f. steps (heap a) root w = Some n
             \<and> (\<forall>w'. steps (heap a) root w' = Some n \<longrightarrow> w' = w)
             \<and> failure_link (heap a ! n) = Some f
             \<and> steps (heap a) root u = Some f \<and> strict_suffix u w
             \<and> (\<forall>v. strict_suffix v w \<longrightarrow> steps (heap a) root v \<noteq> None
                   \<longrightarrow> length v \<le> length u)))"
proof -
  obtain a lab where a: "build ps = Some (Inr a)" "built (patterns a) lab (heap a)"
    using build_correct [of ps] by blast
  have wf: "wf (heap a) lab" by (rule built_wf [OF a(2)])
  have "\<exists>w u f. steps (heap a) root w = Some n
             \<and> (\<forall>w'. steps (heap a) root w' = Some n \<longrightarrow> w' = w)
             \<and> failure_link (heap a ! n) = Some f
             \<and> steps (heap a) root u = Some f \<and> strict_suffix u w
             \<and> (\<forall>v. strict_suffix v w \<longrightarrow> steps (heap a) root v \<noteq> None
                   \<longrightarrow> length v \<le> length u)"
    if n: "n < length (heap a)" "n \<noteq> root" for n
  proof -
    obtain f where f: "failure_link (heap a ! n) = Some f"
      "steps (heap a) root (lab n) = Some n" "steps (heap a) root (lab f) = Some f"
      "strict_suffix (lab f) (lab n)"
      "\<forall>v. strict_suffix v (lab n) \<longrightarrow> steps (heap a) root v \<noteq> None
           \<longrightarrow> length v \<le> length (lab f)"
      using built_failure_link [OF a(2) n] by blast
    have u: "\<forall>w'. steps (heap a) root w' = Some n \<longrightarrow> w' = lab n"
      using steps_iff [OF wf] by simp
    show ?thesis
    proof (rule exI [of _ "lab n"], rule exI [of _ "lab f"], rule exI [of _ f], intro conjI)
      show "steps (heap a) root (lab n) = Some n" by (rule f(2))
      show "\<forall>w'. steps (heap a) root w' = Some n \<longrightarrow> w' = lab n" by (rule u)
      show "failure_link (heap a ! n) = Some f" by (rule f(1))
      show "steps (heap a) root (lab f) = Some f" by (rule f(3))
      show "strict_suffix (lab f) (lab n)" by (rule f(4))
      show "\<forall>v. strict_suffix v (lab n) \<longrightarrow> steps (heap a) root v \<noteq> None
              \<longrightarrow> length v \<le> length (lab f)" by (rule f(5))
    qed
  qed
  then show ?thesis using a(1) by blast
qed

theorem failure_link_longest_proper_suffix_witness:
  "\<exists>a w u. build [''he'', ''she'', ''hers''] = Some (Inr a)
     \<and> steps (heap a) root w = Some 5 \<and> steps (heap a) root u = Some 2
     \<and> strict_suffix u w \<and> failure_link (heap a ! 5) = Some 2"
proof -
  let ?ps = "[''he'', ''she'', ''hers'']"
  have e1: "(case build ?ps of Some (Inr a) \<Rightarrow> length (heap a) | _ \<Rightarrow> 0) = 8" by code_simp
  have e2: "(case build ?ps of Some (Inr a) \<Rightarrow> failure_link (heap a ! 5) | _ \<Rightarrow> None) = Some 2"
    by code_simp
  obtain a where a: "build ?ps = Some (Inr a)"
    and P: "\<forall>n<length (heap a). n \<noteq> root \<longrightarrow>
          (\<exists>w u f. steps (heap a) root w = Some n
             \<and> (\<forall>w'. steps (heap a) root w' = Some n \<longrightarrow> w' = w)
             \<and> failure_link (heap a ! n) = Some f
             \<and> steps (heap a) root u = Some f \<and> strict_suffix u w
             \<and> (\<forall>v. strict_suffix v w \<longrightarrow> steps (heap a) root v \<noteq> None
                   \<longrightarrow> length v \<le> length u))"
    using failure_link_longest_proper_suffix [of ?ps] by blast
  have l: "length (heap a) = 8" using e1 a by simp
  have f: "failure_link (heap a ! 5) = Some 2" using e2 a by simp
  have lt: "5 < length (heap a)" using l by simp
  have ne: "(5::nat) \<noteq> root" by simp
  obtain w u f where w: "steps (heap a) root w = Some 5" "failure_link (heap a ! 5) = Some f"
    "steps (heap a) root u = Some f" "strict_suffix u w"
    using P [rule_format, OF lt ne] by blast
  have "f = 2" using w(2) f by simp
  then show ?thesis using a f w by blast
qed

section \<open>Termination, frame and bounds of the scan\<close>

lemma built_fallback:
  assumes b: "built pats lab h" and n: "n < length h"
  shows "\<exists>y. y < length h \<and> fallback h c (Some n) = Some (Inr y)"
proof -
  have wf: "wf h lab" by (rule built_wf [OF b])
  have links: "\<exists>f. failure_link (h ! k) = Some f \<and> fail_ok (length h) lab k f"
    if "k < length h" "k \<noteq> 0" "length (lab k) \<le> length (lab n)" for k
    by (rule built_links [OF b that(1,2)])
  from fallback_correct [OF wf links n order_refl, of c] show ?thesis by blast
qed

lemma built_output_ids:
  assumes b: "built pats lab h" and n: "n < length h" and p: "pid \<in> set (output (h ! n))"
  shows "pid < length pats"
proof -
  have "set (output (h ! n)) = set (sufs pats (lab n))"
    using built_out [OF b n] by (rule mset_eq_setD)
  then show ?thesis using p by (simp add: sufs_def)
qed

text \<open>
  C6: building always returns, and in the automaton it returns the failure link of every
  non-root state leads to a state of strictly smaller depth (a shorter path-label); the
  fallback loop started at any state on any character returns a state, without raising,
  as written in \<open>build_failure_links\<close> and as written in \<open>search\<close>; and \<open>search\<close> returns on
  every text.
\<close>

theorem fallback_loop_terminates:
  "\<exists>a. build ps = Some (Inr a)
     \<and> (\<forall>n<length (heap a). n \<noteq> root \<longrightarrow>
          (\<exists>f w u. failure_link (heap a ! n) = Some f \<and> f < length (heap a)
             \<and> steps (heap a) root w = Some n \<and> steps (heap a) root u = Some f
             \<and> length u < length w))
     \<and> (\<forall>n<length (heap a). \<forall>c. \<exists>y. y < length (heap a)
            \<and> fallback (heap a) c (Some n) = Some (Inr y)
            \<and> search_fallback a c (Some n) = Some (Inr (a, y)))
     \<and> (\<forall>T. \<exists>ms. search a T = Some (Inr (a, ms)))"
proof -
  obtain a lab where a: "build ps = Some (Inr a)" "built (patterns a) lab (heap a)"
    using build_correct [of ps] by blast
  have 1: "\<exists>f w u. failure_link (heap a ! n) = Some f \<and> f < length (heap a)
             \<and> steps (heap a) root w = Some n \<and> steps (heap a) root u = Some f
             \<and> length u < length w"
    if n: "n < length (heap a)" "n \<noteq> root" for n
  proof -
    obtain f where f: "failure_link (heap a ! n) = Some f" "f < length (heap a)"
      "steps (heap a) root (lab n) = Some n" "steps (heap a) root (lab f) = Some f"
      "strict_suffix (lab f) (lab n)"
      using built_failure_link [OF a(2) n] by blast
    have "length (lab f) < length (lab n)" using f(5) by (rule strict_suffix_length)
    then show ?thesis using f by blast
  qed
  have 2: "\<exists>y. y < length (heap a) \<and> fallback (heap a) c (Some n) = Some (Inr y)
             \<and> search_fallback a c (Some n) = Some (Inr (a, y))"
    if nl: "n < length (heap a)" for n c
  proof -
    obtain y where y: "y < length (heap a)" "fallback (heap a) c (Some n) = Some (Inr y)"
      using built_fallback [OF a(2) nl] by blast
    then show ?thesis using search_fallback_of_fallback [OF y(2)] by blast
  qed
  have 3: "\<exists>ms. search a T = Some (Inr (a, ms))" for T
    using search_correct [OF a(2), of T] by blast
  show ?thesis using a(1) 1 2 3 by blast
qed

theorem fallback_loop_terminates_witness:
  "\<exists>a y ms. build [''he'', ''she'', ''hers''] = Some (Inr a)
     \<and> fallback (heap a) CHR ''r'' (Some 5) = Some (Inr y)
     \<and> search_fallback a CHR ''r'' (Some 5) = Some (Inr (a, y))
     \<and> search a ''ushers'' = Some (Inr (a, ms))"
proof -
  let ?ps = "[''he'', ''she'', ''hers'']"
  have e1: "(case build ?ps of Some (Inr a) \<Rightarrow> length (heap a) | _ \<Rightarrow> 0) = 8" by code_simp
  obtain a where a: "build ?ps = Some (Inr a)"
    and F: "\<forall>n<length (heap a). \<forall>c. \<exists>y. y < length (heap a)
            \<and> fallback (heap a) c (Some n) = Some (Inr y)
            \<and> search_fallback a c (Some n) = Some (Inr (a, y))"
    and S: "\<forall>T. \<exists>ms. search a T = Some (Inr (a, ms))"
    using fallback_loop_terminates [of ?ps] by blast
  have lt: "5 < length (heap a)" using e1 a by simp
  obtain y where "fallback (heap a) CHR ''r'' (Some 5) = Some (Inr y)"
    "search_fallback a CHR ''r'' (Some 5) = Some (Inr (a, y))"
    using F [rule_format, OF lt] by blast
  moreover obtain ms where "search a ''ushers'' = Some (Inr (a, ms))" using S by blast
  ultimately show ?thesis using a by blast
qed

text \<open>
  C8: \<open>search\<close> leaves the automaton as it found it.  Whenever it returns, on any
  automaton and any text, the automaton after the call is the automaton before the call:
  the same store of states with their transitions, failure links and outputs, and the
  same pattern list; so do its two inner loops.  On a built automaton it returns on every
  text, and a second call, on the automaton that the first call left, returns the same
  matches.
\<close>

theorem search_does_not_mutate:
  "(\<forall>b T b' ms. search b T = Some (Inr (b', ms)) \<longrightarrow>
       b' = b \<and> heap b' = heap b \<and> patterns b' = patterns b)
   \<and> (\<forall>b c cur b' n. search_fallback b c cur = Some (Inr (b', n)) \<longrightarrow> b' = b)
   \<and> (\<forall>b i ms ids b' ms'. emit b i ms ids = Some (Inr (b', ms')) \<longrightarrow> b' = b)
   \<and> (\<exists>a. build ps = Some (Inr a)
        \<and> (\<forall>T. \<exists>a' ms. search a T = Some (Inr (a', ms)) \<and> a' = a
               \<and> heap a' = heap a \<and> patterns a' = patterns a
               \<and> search a' T = Some (Inr (a', ms))))"
proof -
  have 1: "b' = b \<and> heap b' = heap b \<and> patterns b' = patterns b"
    if "search b T = Some (Inr (b', ms))" for b T b' ms
    using search_frame [OF that] by simp
  have 2: "b' = b" if "search_fallback b c cur = Some (Inr (b', n))" for b c cur b' n
    by (rule search_fallback_frame [OF that])
  have 3: "b' = b" if "emit b i ms ids = Some (Inr (b', ms'))" for b i ms ids b' ms'
    by (rule emit_frame [OF that])
  obtain a lab where a: "build ps = Some (Inr a)" "built (patterns a) lab (heap a)"
    using build_correct [of ps] by blast
  have 4: "\<exists>a' ms. search a T = Some (Inr (a', ms)) \<and> a' = a
               \<and> heap a' = heap a \<and> patterns a' = patterns a
               \<and> search a' T = Some (Inr (a', ms))" for T
  proof -
    obtain a' ms where r: "search a T = Some (Inr (a', ms))"
      using search_correct [OF a(2), of T] by blast
    have "a' = a" by (rule search_frame [OF r])
    then show ?thesis using r by blast
  qed
  show ?thesis using 1 2 3 a(1) 4 by blast
qed

theorem search_does_not_mutate_witness:
  "\<exists>a ms. build [''he'', ''she'', ''hers''] = Some (Inr a)
     \<and> search a ''ushers'' = Some (Inr (a, ms))
     \<and> search a ''ushers'' = Some (Inr (a, [(1, ''she''), (2, ''he''), (2, ''hers'')]))"
proof -
  let ?ps = "[''he'', ''she'', ''hers'']"
  have e: "build_and_search ?ps ''ushers'' = Some (Inr [(1, ''she''), (2, ''he''), (2, ''hers'')])"
    by code_simp
  obtain a where a: "build ?ps = Some (Inr a)"
    and S: "\<forall>T. \<exists>a' ms. search a T = Some (Inr (a', ms)) \<and> a' = a
               \<and> heap a' = heap a \<and> patterns a' = patterns a
               \<and> search a' T = Some (Inr (a', ms))"
    using search_does_not_mutate [of ?ps] by blast
  obtain ms where ms: "search a ''ushers'' = Some (Inr (a, ms))" using S by blast
  then have "ms = [(1, ''she''), (2, ''he''), (2, ''hers'')]"
    using e a by (simp add: build_and_search_def)
  then show ?thesis using a ms by blast
qed

text \<open>
  C10: after any sequence of \<open>add_pattern\<close> calls every identifier in the output of a state
  is an index of the pattern list, and so it is after \<open>build_failure_links\<close>, which
  returns; hence \<open>search\<close> on the built automaton returns on every text and never raises
  \<open>IndexError\<close> at \<open>self.patterns[pattern_id]\<close>.
\<close>

theorem output_ids_in_bounds:
  "(\<forall>n<length (heap (add_patterns new_automaton ps)).
      \<forall>pid\<in>set (output (heap (add_patterns new_automaton ps) ! n)).
        pid < length (patterns (add_patterns new_automaton ps)))
   \<and> (\<exists>a. build ps = Some (Inr a)
        \<and> (\<forall>n<length (heap a). \<forall>pid\<in>set (output (heap a ! n)). pid < length (patterns a))
        \<and> (\<forall>T. \<exists>ms. search a T = Some (Inr (a, ms)))
        \<and> (\<forall>T. search a T \<noteq> Some (Inl IndexError)))"
proof -
  let ?a0 = "add_patterns new_automaton ps"
  obtain lab0 where t: "trie_inv ?a0 lab0" using add_patterns_inv [OF trie_inv_new] by blast
  have 0: "pid < length (patterns ?a0)"
    if "n < length (heap ?a0)" "pid \<in> set (output (heap ?a0 ! n))" for n pid
  proof -
    have "output (heap ?a0 ! n)
            = filter (\<lambda>p. patterns ?a0 ! p = lab0 n) [0..<length (patterns ?a0)]"
      using t that(1) by (simp add: trie_inv_def)
    then show ?thesis using that(2) by simp
  qed
  obtain a lab where a: "build ps = Some (Inr a)" "built (patterns a) lab (heap a)"
    using build_correct [of ps] by blast
  have 1: "pid < length (patterns a)"
    if "n < length (heap a)" "pid \<in> set (output (heap a ! n))" for n pid
    by (rule built_output_ids [OF a(2) that])
  have 2: "\<exists>ms. search a T = Some (Inr (a, ms))" for T
    using search_correct [OF a(2), of T] by blast
  have 3: "search a T \<noteq> Some (Inl IndexError)" for T
    using 2 [of T] by auto
  show ?thesis using 0 a(1) 1 2 3 by blast
qed

theorem output_ids_in_bounds_witness:
  "\<exists>a. build [''he'', ''she'', ''hers''] = Some (Inr a)
     \<and> output (heap a ! 5) = [1, 0] \<and> 1 < length (patterns a) \<and> 0 < length (patterns a)
     \<and> search a ''ushers'' \<noteq> Some (Inl IndexError)"
proof -
  let ?ps = "[''he'', ''she'', ''hers'']"
  have e1: "(case build ?ps of Some (Inr a) \<Rightarrow> length (heap a) | _ \<Rightarrow> 0) = 8" by code_simp
  have e2: "(case build ?ps of Some (Inr a) \<Rightarrow> output (heap a ! 5) | _ \<Rightarrow> []) = [1, 0]"
    by code_simp
  obtain a where a: "build ?ps = Some (Inr a)"
    and B: "\<forall>n<length (heap a). \<forall>pid\<in>set (output (heap a ! n)). pid < length (patterns a)"
    and S: "\<forall>T. search a T \<noteq> Some (Inl IndexError)"
    using output_ids_in_bounds [of ?ps] by blast
  have lt: "5 < length (heap a)" using e1 a by simp
  have o: "output (heap a ! 5) = [1, 0]" using e2 a by simp
  have "1 < length (patterns a)" "0 < length (patterns a)"
    using B [rule_format, OF lt, of 1] B [rule_format, OF lt, of 0] o by simp_all
  then show ?thesis using a o S by blast
qed

section \<open>Inserting a pattern twice\<close>

lemma walk_insert_steps: "steps h cur w = Some t \<Longrightarrow> walk_insert h cur w = (h, t)"
  by (induction w arbitrary: cur) (auto split: option.splits)

lemma naive_scan_self: "naive_scan p p = [0]"
  by (simp add: naive_scan_def)

lemma mset_pair_same:
  assumes "mset ms = {#x, x#}"
  shows "ms = [x, x]"
proof -
  have "size (mset ms) = 2" using assms by simp
  then have "length ms = 2" by simp
  then obtain a b where ab: "ms = [a, b]"
    by (metis One_nat_def Suc_1 length_0_conv length_Suc_conv)
  have "set ms = {x}" using assms by (metis insert_absorb2 mset_eq_setD set_mset_add_mset_insert
        set_mset_empty set_mset_mset)
  then show ?thesis using ab by auto
qed

text \<open>
  C5: inserting a non-empty pattern \<open>p\<close> twice into an automaton obtained by
  \<open>add_pattern\<close> calls registers the two identifiers \<open>length (patterns a0)\<close> and its
  successor; the second insertion creates no state and no transition, reaches the same
  terminal state \<open>t\<close> as the first, and appends its identifier to the output of \<open>t\<close> after
  the first one (\<open>lits (patterns a0) p\<close> are the identifiers of earlier insertions of \<open>p\<close>).
  Building on \<open>[p, p]\<close> and scanning the text \<open>p\<close> gives two matches at offset 0.
\<close>

theorem duplicate_pattern_two_ids:
  assumes ne: "p \<noteq> []"
    and a0: "a0 = add_patterns new_automaton ps"
    and a1: "a1 = add_pattern a0 p" and a2: "a2 = add_pattern a1 p"
  shows "patterns a1 = patterns a0 @ [p] \<and> patterns a2 = patterns a0 @ [p, p]
     \<and> length (heap a2) = length (heap a1)
     \<and> map children (heap a2) = map children (heap a1)
     \<and> (\<exists>t. t < length (heap a1)
          \<and> steps (heap a1) root p = Some t \<and> steps (heap a2) root p = Some t
          \<and> output (heap a1 ! t) = lits (patterns a0) p @ [length (patterns a0)]
          \<and> output (heap a2 ! t)
              = lits (patterns a0) p @ [length (patterns a0), Suc (length (patterns a0))]
          \<and> is_end_of_pattern (heap a2 ! t))
     \<and> build_and_search [p, p] p = Some (Inr [(0, p), (0, p)])"
proof -
  obtain lab0 where t0: "trie_inv a0 lab0"
    unfolding a0 using add_patterns_inv [OF trie_inv_new] by blast
  obtain lab1 where t1: "trie_inv a1 lab1"
    unfolding a1 using add_pattern_inv [OF t0 ne] by blast
  obtain lab2 where t2: "trie_inv a2 lab2" and l12: "\<forall>n<length (heap a1). lab2 n = lab1 n"
    unfolding a2 using add_pattern_inv [OF t1 ne] by blast
  have p1: "patterns a1 = patterns a0 @ [p]"
    unfolding a1 using ne by (simp add: add_pattern_patterns)
  have p2: "patterns a2 = patterns a0 @ [p, p]"
    unfolding a2 using ne p1 by (simp add: add_pattern_patterns)
  have wf1: "wf (heap a1) lab1" using t1 by (simp add: trie_inv_def)
  have wf2: "wf (heap a2) lab2" using t2 by (simp add: trie_inv_def)
  have "p \<in> set (patterns a1)" using p1 by simp
  then obtain t where t: "t < length (heap a1)" "lab1 t = p"
    using t1 unfolding trie_inv_def by blast
  have s1: "steps (heap a1) root p = Some t" by (rule lab_steps [OF wf1 t])
  have wi: "walk_insert (heap a1) root p = (heap a1, t)" by (rule walk_insert_steps [OF s1])
  have h2: "heap a2 = (heap a1)[t := (heap a1 ! t)\<lparr>is_end_of_pattern := True,
                 output := output (heap a1 ! t) @ [length (patterns a1)]\<rparr>]"
    unfolding a2 by (rule add_pattern_heap(1) [OF ne wi t(1)])
  have len: "length (heap a2) = length (heap a1)" unfolding h2 by simp
  have ch: "map children (heap a2) = map children (heap a1)"
    unfolding h2 using t(1) by (simp add: list_eq_iff_nth_eq nth_list_update)
  have "lab2 t = p" using l12 t by simp
  then have s2: "steps (heap a2) root p = Some t"
    using lab_steps [OF wf2, of t p] t(1) len by simp
  have "output (heap a1 ! t)
          = filter (\<lambda>q. patterns a1 ! q = lab1 t) [0..<length (patterns a1)]"
    using t1 t(1) by (simp add: trie_inv_def)
  then have o1: "output (heap a1 ! t) = lits (patterns a0) p @ [length (patterns a0)]"
    unfolding p1 t(2) lits_def by (simp add: filter_snoc_patterns del: upt_Suc)
  have o2: "output (heap a2 ! t)
              = lits (patterns a0) p @ [length (patterns a0), Suc (length (patterns a0))]"
    unfolding h2 using t(1) o1 p1 by simp
  have e2: "is_end_of_pattern (heap a2 ! t)" unfolding h2 using t(1) by simp
  obtain ms where ms: "build_and_search [p, p] p = Some (Inr ms)"
    "mset ms = matches_from (filter (\<lambda>p. p \<noteq> []) [p, p]) [] p"
    using build_and_search_correct [of "[p, p]" p] by blast
  have "matches_from [p, p] [] p = matches_from [p] [] p + matches_from [p] [] p"
    using matches_from_Cons [of p "[p]" "[]" p] by simp
  then have "mset ms = {#(0, p), (0, p)#}"
    using ms(2) ne single_naive [OF ne, of p] by (simp add: naive_scan_self)
  then have "ms = [(0, p), (0, p)]" by (rule mset_pair_same)
  then have scan: "build_and_search [p, p] p = Some (Inr [(0, p), (0, p)])" using ms(1) by simp
  show ?thesis
    using p1 p2 len ch t(1) s1 s2 o1 o2 e2 scan by blast
qed

theorem duplicate_pattern_two_ids_witness:
  "patterns (add_pattern (add_pattern new_automaton ''ab'') ''ab'') = [''ab'', ''ab'']
   \<and> length (heap (add_pattern (add_pattern new_automaton ''ab'') ''ab''))
       = length (heap (add_pattern new_automaton ''ab''))
   \<and> build_and_search [''ab'', ''ab''] ''ab'' = Some (Inr [(0, ''ab''), (0, ''ab'')])"
proof -
  have ne: "''ab'' \<noteq> []" by simp
  have a0: "new_automaton = add_patterns new_automaton []" by (simp add: add_patterns_def)
  have p0: "patterns new_automaton = []" by (simp add: new_automaton_def)
  show ?thesis
    using duplicate_pattern_two_ids [OF ne a0 refl refl] unfolding p0 by simp
qed

end
